theory Spec2Isabelle
  imports Main "HOL-Library.Char_ord" "HOL-Library.List_Lexorder"
begin

section \<open>Grammars, symbols and errors\<close>

text \<open>
  A grammar is a Python dict from nonterminal names to lists of alternatives, each a list
  of symbols. Python dicts keep insertion order and have distinct keys, so the grammar is
  an association list; \<open>map_of g k\<close> is \<^verbatim>\<open>g[k]\<close> and \<open>map_of g k = None\<close> is
  \<^verbatim>\<open>k not in g\<close>. The input text is a Python \<^verbatim>\<open>str\<close>; its tokens are its
  one-character substrings.
\<close>

type_synonym symbol = string
type_synonym alternative = "symbol list"
type_synonym grammar = "(symbol \<times> alternative list) list"

datatype error =
    SyntaxError string
  | KeyError symbol
  | IndexError
  | AssertionError
  | AttributeError
  | RecursionError
  | ValueError

text \<open>
  \<^verbatim>\<open>def is_nt(k): return (k[0], k[-1]) == ('<', '>')\<close>.
  On the empty string Python raises IndexError; the callers below check for that case
  before they use \<open>is_nt\<close>.
\<close>

definition is_nt :: "symbol \<Rightarrow> bool" where
  "is_nt k = (k \<noteq> [] \<and> hd k = CHR ''<'' \<and> last k = CHR ''>'')"

section \<open>Nullable nonterminals (Earley.py, \<^verbatim>\<open>rem_terminals\<close> and \<^verbatim>\<open>nullable\<close>)\<close>

text \<open>
  \<^verbatim>\<open>rem_terminals\<close> keeps, for every key, the alternatives that hold no terminal, and
  drops a key whose list becomes empty. It evaluates \<open>is_nt\<close> on every symbol of every
  alternative, so it raises IndexError exactly when some alternative holds the empty
  string.
\<close>

definition rem_terminals :: "grammar \<Rightarrow> grammar" where
  "rem_terminals g =
     filter (\<lambda>(k, alts). alts \<noteq> [])
       (map (\<lambda>(k, alts). (k, filter (\<lambda>alt. filter (\<lambda>t. \<not> is_nt t) alt = []) alts)) g)"

definition has_empty_symbol :: "grammar \<Rightarrow> bool" where
  "has_empty_symbol g = (\<exists>(k, alts) \<in> set g. \<exists>alt \<in> set alts. [] \<in> set alt)"

text \<open>
  The inner \<^verbatim>\<open>for alt in g_cur[k]\<close> loop of \<^verbatim>\<open>nullable\<close>: every alternative loses
  the symbol \<open>nxt\<close>; at the first alternative that becomes empty the loop breaks (the flag),
  keeping the alternatives collected so far.
\<close>

fun strip_alts :: "symbol \<Rightarrow> alternative list \<Rightarrow> alternative list \<times> bool" where
  "strip_alts nxt [] = ([], False)"
| "strip_alts nxt (alt # alts) =
     (let alt' = filter (\<lambda>t. t \<noteq> nxt) alt in
      if alt' = [] then ([], True)
      else (let (r, b) = strip_alts nxt alts in (alt' # r, b)))"

text \<open>
  The \<^verbatim>\<open>for k in g_cur\<close> loop: the state is (nullable_keys, unprocessed, g_nxt).
  \<^verbatim>\<open>nullable_keys\<close> is a Python set, kept here as a duplicate-free list.
\<close>

fun nullable_pass ::
  "symbol \<Rightarrow> grammar \<Rightarrow> symbol list \<times> symbol list \<times> grammar
     \<Rightarrow> symbol list \<times> symbol list \<times> grammar" where
  "nullable_pass nxt [] acc = acc"
| "nullable_pass nxt ((k, alts) # g_cur) (nullable_keys, unprocessed, g_nxt) =
     (let (g_alts, found) = strip_alts nxt alts;
          nullable_keys' = (if found then List.insert k nullable_keys else nullable_keys);
          unprocessed' = (if found then unprocessed @ [k] else unprocessed);
          g_nxt' = (if g_alts \<noteq> [] then g_nxt @ [(k, g_alts)] else g_nxt)
      in nullable_pass nxt g_cur (nullable_keys', unprocessed', g_nxt'))"

definition total_alts :: "grammar \<Rightarrow> nat" where
  "total_alts g = sum_list (map (\<lambda>(k, alts). length alts) g)"

lemma strip_alts_length:
  "strip_alts nxt alts = (r, b) \<Longrightarrow> length r + (if b then 1 else 0) \<le> length alts"
  by (induction alts arbitrary: r b) (auto simp: Let_def split: if_splits prod.splits)

lemma nullable_pass_measure:
  "nullable_pass nxt g_cur (nk, un, gn) = (nk', un', gn') \<Longrightarrow>
   length un' + total_alts gn' \<le> length un + total_alts gn + total_alts g_cur"
proof (induction g_cur arbitrary: nk un gn)
  case Nil
  then show ?case by (simp add: total_alts_def)
next
  case (Cons a g_cur)
  obtain k alts where a: "a = (k, alts)" by (cases a)
  obtain r b where s: "strip_alts nxt alts = (r, b)" by (cases "strip_alts nxt alts")
  from strip_alts_length [OF s] have l: "length r + (if b then 1 else 0) \<le> length alts" .
  from Cons.prems a s
  have "nullable_pass nxt g_cur
          (if b then List.insert k nk else nk, if b then un @ [k] else un,
           if r \<noteq> [] then gn @ [(k, r)] else gn) = (nk', un', gn')"
    by (simp add: Let_def)
  from Cons.IH [OF this] l a show ?case
    by (auto simp: total_alts_def split: if_splits)
qed

text \<open>The \<^verbatim>\<open>while unprocessed\<close> loop.\<close>

function nullable_loop :: "symbol list \<Rightarrow> symbol list \<Rightarrow> grammar \<Rightarrow> symbol list" where
  "nullable_loop nullable_keys [] g_cur = nullable_keys"
| "nullable_loop nullable_keys (nxt # unprocessed) g_cur =
     (case nullable_pass nxt g_cur (nullable_keys, unprocessed, []) of
        (nullable_keys', unprocessed', g_nxt) \<Rightarrow> nullable_loop nullable_keys' unprocessed' g_nxt)"
  by pat_completeness auto
termination
  apply (relation "measure (\<lambda>(nk, un, g). length un + total_alts g)")
   apply simp
  subgoal for nullable_keys nxt unprocessed g_cur x y xa ya
    using nullable_pass_measure [of nxt g_cur nullable_keys unprocessed "[]" x xa ya]
    by (cases "nullable_pass nxt g_cur (nullable_keys, unprocessed, [])")
       (auto simp: total_alts_def)
  done

text \<open>
  \<^verbatim>\<open>nullable(g)\<close>. The initial \<^verbatim>\<open>unprocessed = list(nullable_keys)\<close> lists a Python
  set, whose order is the interpreter's; the model lists the keys in grammar order.
\<close>

definition nullable :: "grammar \<Rightarrow> error + symbol list" where
  "nullable g =
     (let nullable_keys = remdups (map fst (filter (\<lambda>(k, alts). [] \<in> set alts) g)) in
      if has_empty_symbol g then Inl IndexError
      else Inr (nullable_loop nullable_keys nullable_keys (rem_terminals g)))"

section \<open>Earley chart: states and columns\<close>

text \<open>
  \<^verbatim>\<open>class State\<close>: \<open>s_col\<close> and \<open>e_col\<close> are references to columns of the chart;
  the model keeps the column's position in the chart, which is the column's \<open>index\<close>.
  \<open>tstate\<close> tells an instance of the subclass \<^verbatim>\<open>TState\<close>.
  Equality and hashing of states go through \<^verbatim>\<open>_t()\<close>, here \<open>t_key\<close>.
\<close>

record state =
  name :: symbol
  expr :: alternative
  dot :: nat
  s_col :: nat
  e_col :: "nat option"
  tstate :: bool

record column =
  index :: nat
  letter :: "symbol option"
  states :: "state list"
  transitives :: "(symbol \<times> state) list"

type_synonym chart = "column list"

definition finished :: "state \<Rightarrow> bool" where
  "finished st = (dot st \<ge> length (expr st))"

definition at_dot :: "state \<Rightarrow> symbol option" where
  "at_dot st = (if dot st < length (expr st) then Some (expr st ! dot st) else None)"

definition t_key :: "state \<Rightarrow> symbol \<times> alternative \<times> nat \<times> nat" where
  "t_key st = (name st, expr st, dot st, s_col st)"

definition advance :: "state \<Rightarrow> state" where
  "advance st = \<lparr>name = name st, expr = expr st, dot = dot st + 1, s_col = s_col st,
                  e_col = None, tstate = False\<rparr>"

definition create_state :: "symbol \<Rightarrow> alternative \<Rightarrow> nat \<Rightarrow> nat \<Rightarrow> state" where
  "create_state symb alt num col =
     \<lparr>name = symb, expr = alt, dot = num, s_col = col, e_col = None, tstate = False\<rparr>"

definition create_column :: "nat \<Rightarrow> symbol option \<Rightarrow> column" where
  "create_column i tok = \<lparr>index = i, letter = tok, states = [], transitives = []\<rparr>"

text \<open>
  \<^verbatim>\<open>Column.add\<close>: the dict \<^verbatim>\<open>_unique\<close> holds exactly the states of the list, keyed
  by \<^verbatim>\<open>_t()\<close>; a new state is appended and gets this column as its end column.
\<close>

definition col_add :: "column \<Rightarrow> state \<Rightarrow> column" where
  "col_add col st =
     (if t_key st \<in> set (map t_key (states col)) then col
      else col\<lparr>states := states col @ [st\<lparr>e_col := Some (index col)\<rparr>]\<rparr>)"

text \<open>
  The columns are shared mutable objects; the chart is the store, and adding to the
  column at position \<open>i\<close> updates the chart there. A column reference always points into
  the chart, so a position outside the chart does not occur; \<open>col_states\<close> reads the
  state list of a column.
\<close>

definition chart_add :: "chart \<Rightarrow> nat \<Rightarrow> state \<Rightarrow> chart" where
  "chart_add chart i st = (if i < length chart then chart[i := col_add (chart ! i) st] else chart)"

definition col_states :: "chart \<Rightarrow> nat \<Rightarrow> state list" where
  "col_states chart i = (if i < length chart then states (chart ! i) else [])"

section \<open>Earley recognizer: predict, scan, complete, fill_chart\<close>

definition alts_of :: "grammar \<Rightarrow> symbol \<Rightarrow> alternative list" where
  "alts_of g symb = (case map_of g symb of Some alts \<Rightarrow> alts | None \<Rightarrow> [])"

definition predict :: "grammar \<Rightarrow> symbol list \<Rightarrow> chart \<Rightarrow> nat \<Rightarrow> symbol \<Rightarrow> state \<Rightarrow> chart" where
  "predict g epsilon chart i symb st =
     (let chart' = fold (\<lambda>alt ch. chart_add ch i (create_state symb alt 0 i)) (alts_of g symb) chart
      in if symb \<in> set epsilon then chart_add chart' i (advance st) else chart')"

definition scan :: "chart \<Rightarrow> nat \<Rightarrow> state \<Rightarrow> symbol \<Rightarrow> chart" where
  "scan chart j st letter' =
     (if j < length chart \<and> Some letter' = letter (chart ! j) then chart_add chart j (advance st)
      else chart)"

definition complete :: "chart \<Rightarrow> nat \<Rightarrow> state \<Rightarrow> chart" where
  "complete chart i st =
     fold (\<lambda>p ch. chart_add ch i (advance p))
          (filter (\<lambda>p. at_dot p = Some (name st)) (col_states chart (s_col st))) chart"

text \<open>
  The body of the inner loop of \<^verbatim>\<open>fill_chart\<close> for one state of column \<open>i\<close>.
  \<^verbatim>\<open>predict\<close> is reached only for a symbol that is a key of the grammar.
\<close>

definition fill_step :: "grammar \<Rightarrow> symbol list \<Rightarrow> chart \<Rightarrow> nat \<Rightarrow> state \<Rightarrow> chart" where
  "fill_step g epsilon chart i st =
     (if finished st then complete chart i st
      else (let symb = expr st ! dot st in
            if symb \<in> fst ` set g then predict g epsilon chart i symb st
            else if i + 1 \<ge> length chart then chart
            else scan chart (i + 1) st symb))"

text \<open>
  The inner loop of \<^verbatim>\<open>fill_chart\<close> walks a list that grows while it is walked.
  It ends because a column never holds two states with the same key, and every key that
  can be added lies in a finite set fixed by the grammar and the chart: \<open>universe\<close>.
\<close>

type_synonym skey = "symbol \<times> alternative \<times> nat \<times> nat"

definition ukeys :: "state \<Rightarrow> skey set" where
  "ukeys st = {(name st, expr st, d, s_col st) | d. d \<le> max (dot st) (length (expr st))}"

definition pkeys :: "grammar \<Rightarrow> nat \<Rightarrow> skey set" where
  "pkeys g i = {(k, alt, d, i) | k alts alt d. map_of g k = Some alts \<and> alt \<in> set alts \<and> d \<le> length alt}"

definition universe :: "grammar \<Rightarrow> chart \<Rightarrow> nat \<Rightarrow> skey set" where
  "universe g chart i = (\<Union>c \<in> set chart. \<Union>st \<in> set (states c). ukeys st) \<union> pkeys g i"

lemma finite_ukeys: "finite (ukeys st)"
proof -
  have "ukeys st = (\<lambda>d. (name st, expr st, d, s_col st)) ` {d. d \<le> max (dot st) (length (expr st))}"
    by (auto simp: ukeys_def)
  then show ?thesis by simp
qed

lemma finite_pkeys: "finite (pkeys g i)"
proof -
  have "pkeys g i \<subseteq> (\<Union>(k, alts) \<in> set g. \<Union>alt \<in> set alts. (\<lambda>d. (k, alt, d, i)) ` {d. d \<le> length alt})"
    by (fastforce simp: pkeys_def dest!: map_of_SomeD) 
  moreover have "finite (\<Union>(k, alts) \<in> set g. \<Union>alt \<in> set alts. (\<lambda>d. (k, alt, d, i)) ` {d. d \<le> length alt})"
    by auto
  ultimately show ?thesis by (rule finite_subset)
qed

lemma finite_universe: "finite (universe g chart i)"
  by (simp add: universe_def finite_ukeys finite_pkeys)

lemma t_key_in_ukeys: "t_key st \<in> ukeys st"
  by (simp add: t_key_def ukeys_def)

lemma ukeys_e_col [simp]: "ukeys (st\<lparr>e_col := x\<rparr>) = ukeys st"
  by (simp add: ukeys_def)

lemma t_key_e_col [simp]: "t_key (st\<lparr>e_col := x\<rparr>) = t_key st"
  by (simp add: t_key_def)

lemma ukeys_advance: "dot p < length (expr p) \<Longrightarrow> ukeys (advance p) \<subseteq> ukeys p"
  by (auto simp: ukeys_def advance_def)

lemma ukeys_create: "alt \<in> set (alts_of g symb) \<Longrightarrow> ukeys (create_state symb alt 0 i) \<subseteq> pkeys g i"
  by (cases "map_of g symb") (auto simp: ukeys_def create_state_def pkeys_def alts_of_def)

definition chart_in :: "skey set \<Rightarrow> chart \<Rightarrow> bool" where
  "chart_in U ch = (\<forall>c \<in> set ch. \<forall>st \<in> set (states c). ukeys st \<subseteq> U)"

definition col_ext :: "skey set \<Rightarrow> state list \<Rightarrow> state list \<Rightarrow> bool" where
  "col_ext U xs ys = (\<exists>new. ys = xs @ new \<and> distinct (map t_key new) \<and>
       set (map t_key new) \<inter> set (map t_key xs) = {} \<and> set (map t_key new) \<subseteq> U)"

definition chart_ext :: "skey set \<Rightarrow> nat \<Rightarrow> chart \<Rightarrow> chart \<Rightarrow> bool" where
  "chart_ext U i ch ch' = (length ch' = length ch \<and> chart_in U ch' \<and>
       col_ext U (col_states ch i) (col_states ch' i))"

lemma col_ext_refl: "col_ext U xs xs"
  by (simp add: col_ext_def)

lemma col_ext_trans: "col_ext U xs ys \<Longrightarrow> col_ext U ys zs \<Longrightarrow> col_ext U xs zs"
  unfolding col_ext_def
proof (elim exE conjE)
  fix n1 n2
  assume a: "ys = xs @ n1" "distinct (map t_key n1)" "set (map t_key n1) \<inter> set (map t_key xs) = {}"
     "set (map t_key n1) \<subseteq> U" "zs = ys @ n2" "distinct (map t_key n2)"
     "set (map t_key n2) \<inter> set (map t_key ys) = {}" "set (map t_key n2) \<subseteq> U"
  show "\<exists>new. zs = xs @ new \<and> distinct (map t_key new) \<and>
       set (map t_key new) \<inter> set (map t_key xs) = {} \<and> set (map t_key new) \<subseteq> U"
    by (rule exI [of _ "n1 @ n2"]) (use a in auto)
qed

lemma chart_ext_refl: "chart_in U ch \<Longrightarrow> chart_ext U i ch ch"
  by (simp add: chart_ext_def col_ext_refl)

lemma chart_ext_trans: "chart_ext U i a b \<Longrightarrow> chart_ext U i b c \<Longrightarrow> chart_ext U i a c"
  by (auto simp: chart_ext_def intro: col_ext_trans)

lemma chart_ext_in: "chart_ext U i a b \<Longrightarrow> chart_in U b"
  by (simp add: chart_ext_def)

lemma chart_add_ext:
  assumes "chart_in U ch" "ukeys st \<subseteq> U"
  shows "chart_ext U i ch (chart_add ch j st)"
proof (cases "j < length ch \<and> t_key st \<notin> set (map t_key (states (ch ! j)))")
  case False
  then have "chart_add ch j st = ch"
    by (auto simp: chart_add_def col_add_def)
  with assms show ?thesis by (simp add: chart_ext_refl)
next
  case True
  let ?st = "st\<lparr>e_col := Some (index (ch ! j))\<rparr>"
  let ?c = "(ch ! j)\<lparr>states := states (ch ! j) @ [?st]\<rparr>"
  from True have eq: "chart_add ch j st = ch[j := ?c]"
    by (simp add: chart_add_def col_add_def)
  have in': "chart_in U (ch[j := ?c])"
    unfolding chart_in_def
  proof (intro ballI)
    fix c s assume c: "c \<in> set (ch[j := ?c])" and s: "s \<in> set (states c)"
    from c have "c = ?c \<or> c \<in> set ch" by (auto dest: set_update_subset_insert [THEN subsetD])
    then show "ukeys s \<subseteq> U"
    proof
      assume "c = ?c"
      with s have "s = ?st \<or> s \<in> set (states (ch ! j))" by auto
      moreover from True have "ch ! j \<in> set ch" by simp
      ultimately show ?thesis using assms unfolding chart_in_def by auto
    next
      assume "c \<in> set ch" with s assms show ?thesis by (auto simp: chart_in_def)
    qed
  qed
  have "col_ext U (col_states ch i) (col_states (ch[j := ?c]) i)"
  proof (cases "i = j")
    case False
    then have "col_states (ch[j := ?c]) i = col_states ch i" by (simp add: col_states_def)
    then show ?thesis by (simp add: col_ext_refl)
  next
    case ij: True
    with True have "col_states (ch[j := ?c]) i = col_states ch i @ [?st]"
      by (simp add: col_states_def)
    moreover have "t_key ?st \<in> U" using assms(2) t_key_in_ukeys [of st] by auto
    ultimately show ?thesis using True ij
      unfolding col_ext_def by (intro exI [of _ "[?st]"]) (auto simp: col_states_def)
  qed
  with in' eq show ?thesis by (simp add: chart_ext_def)
qed

lemma fold_chart_add_ext:
  assumes "\<forall>x \<in> set xs. ukeys (f x) \<subseteq> U" "chart_in U ch"
  shows "chart_ext U i ch (fold (\<lambda>x c. chart_add c j (f x)) xs ch)"
  using assms
proof (induction xs arbitrary: ch)
  case Nil
  then show ?case by (simp add: chart_ext_refl)
next
  case (Cons x xs)
  from Cons.prems have 1: "chart_ext U i ch (chart_add ch j (f x))"
    by (intro chart_add_ext) auto
  from Cons.prems have "chart_ext U i (chart_add ch j (f x)) (fold (\<lambda>x c. chart_add c j (f x)) xs (chart_add ch j (f x)))"
    by (intro Cons.IH chart_ext_in [OF 1]) auto
  with 1 show ?case by (auto intro: chart_ext_trans)
qed

lemma col_states_in:
  assumes "chart_in U ch" "p \<in> set (col_states ch j)"
  shows "ukeys p \<subseteq> U"
proof -
  from assms(2) have "j < length ch" and p: "p \<in> set (states (ch ! j))"
    by (auto simp: col_states_def split: if_splits)
  then have "ch ! j \<in> set ch" by simp
  with assms(1) p show ?thesis unfolding chart_in_def by blast
qed

lemma fill_step_ext:
  assumes "chart_in U ch" "pkeys g i \<subseteq> U" "ukeys st \<subseteq> U"
  shows "chart_ext U i ch (fill_step g epsilon ch i st)"
proof (cases "finished st")
  case True
  have "\<forall>p \<in> set (filter (\<lambda>p. at_dot p = Some (name st)) (col_states ch (s_col st))). ukeys (advance p) \<subseteq> U"
  proof
    fix p assume "p \<in> set (filter (\<lambda>p. at_dot p = Some (name st)) (col_states ch (s_col st)))"
    then have p: "p \<in> set (col_states ch (s_col st))" and d: "dot p < length (expr p)"
      by (auto simp: at_dot_def split: if_splits)
    from col_states_in [OF assms(1) p] ukeys_advance [OF d] show "ukeys (advance p) \<subseteq> U" by auto
  qed
  from fold_chart_add_ext [of _ advance U ch i i, OF this assms(1)] True
  show ?thesis by (simp add: fill_step_def complete_def)
next
  case False
  then have d: "dot st < length (expr st)" by (simp add: finished_def)
  have adv: "ukeys (advance st) \<subseteq> U" using ukeys_advance [OF d] assms(3) by auto
  let ?symb = "expr st ! dot st"
  have pr: "chart_ext U i ch (predict g epsilon ch i ?symb st)"
  proof -
    have "\<forall>alt \<in> set (alts_of g ?symb). ukeys (create_state ?symb alt 0 i) \<subseteq> U"
      using ukeys_create assms(2) by blast
    from fold_chart_add_ext [of _ "\<lambda>alt. create_state ?symb alt 0 i" U ch i i, OF this assms(1)]
    have 1: "chart_ext U i ch (fold (\<lambda>alt c. chart_add c i (create_state ?symb alt 0 i)) (alts_of g ?symb) ch)" .
    from chart_add_ext [OF chart_ext_in [OF 1] adv]
    have "chart_ext U i (fold (\<lambda>alt c. chart_add c i (create_state ?symb alt 0 i)) (alts_of g ?symb) ch)
       (chart_add (fold (\<lambda>alt c. chart_add c i (create_state ?symb alt 0 i)) (alts_of g ?symb) ch) i (advance st))" .
    with 1 show ?thesis by (auto simp: predict_def Let_def intro: chart_ext_trans)
  qed
  have sc: "chart_ext U i ch (scan ch (i + 1) st ?symb)"
    using chart_add_ext [OF assms(1) adv] assms(1) by (simp add: scan_def chart_ext_refl)
  from False pr sc assms(1) show ?thesis
    by (simp add: fill_step_def Let_def chart_ext_refl)
qed

lemma chart_in_universe: "chart_in (universe g ch i) ch"
  by (auto simp: chart_in_def universe_def)

lemma universe_mono: "chart_in U ch \<Longrightarrow> pkeys g i \<subseteq> U \<Longrightarrow> universe g ch i \<subseteq> U"
  by (auto simp: chart_in_def universe_def)

definition fill_measure :: "grammar \<Rightarrow> chart \<Rightarrow> nat \<Rightarrow> nat \<Rightarrow> nat" where
  "fill_measure g chart i k =
     card (universe g chart i - set (map t_key (col_states chart i))) + length (col_states chart i) - k"

lemma fill_measure_decreases:
  assumes k: "k < length (col_states chart i)"
  shows "fill_measure g (fill_step g epsilon chart i (col_states chart i ! k)) i (Suc k) < fill_measure g chart i k"
proof -
  let ?U = "universe g chart i"
  let ?st = "col_states chart i ! k"
  let ?ch' = "fill_step g epsilon chart i ?st"
  have st: "?st \<in> set (col_states chart i)" using k by simp
  have "ukeys ?st \<subseteq> ?U" by (rule col_states_in [OF chart_in_universe st])
  moreover have "pkeys g i \<subseteq> ?U" by (simp add: universe_def)
  ultimately have ext: "chart_ext ?U i chart ?ch'"
    by (intro fill_step_ext chart_in_universe)
  then obtain new where new: "col_states ?ch' i = col_states chart i @ new" "distinct (map t_key new)"
    "set (map t_key new) \<inter> set (map t_key (col_states chart i)) = {}" "set (map t_key new) \<subseteq> ?U"
    by (auto simp: chart_ext_def col_ext_def)
  have sub: "universe g ?ch' i \<subseteq> ?U"
    by (rule universe_mono [OF chart_ext_in [OF ext]]) (simp add: universe_def)
  have fin: "finite ?U" by (rule finite_universe)
  let ?K = "set (map t_key (col_states chart i))"
  let ?N = "set (map t_key new)"
  have "card (universe g ?ch' i - (?K \<union> ?N)) \<le> card (?U - (?K \<union> ?N))"
    by (rule card_mono) (use fin sub in auto)
  moreover have "?U - (?K \<union> ?N) = (?U - ?K) - ?N" by auto
  moreover have "card ((?U - ?K) - ?N) = card (?U - ?K) - card ?N"
    by (rule card_Diff_subset) (use new in auto)
  moreover have "card ?N = length new" using new(2) distinct_card [of "map t_key new"] by simp
  moreover have "card ?N \<le> card (?U - ?K)"
    by (rule card_mono) (use fin new in auto)
  ultimately show ?thesis using k new(1)
    by (simp add: fill_measure_def)
qed

text \<open>
  \<^verbatim>\<open>for state in col.states: ...\<close> over the growing list of column \<open>i\<close>, from
  position \<open>k\<close> on.
\<close>

function fill_col :: "grammar \<Rightarrow> symbol list \<Rightarrow> chart \<Rightarrow> nat \<Rightarrow> nat \<Rightarrow> chart" where
  "fill_col g epsilon chart i k =
     (if k < length (col_states chart i)
      then fill_col g epsilon (fill_step g epsilon chart i (col_states chart i ! k)) i (Suc k)
      else chart)"
  by pat_completeness auto
termination
  by (relation "measure (\<lambda>(g, epsilon, chart, i, k). fill_measure g chart i k)")
     (simp_all add: fill_measure_decreases)

declare fill_col.simps [simp del]


text \<open>\<^verbatim>\<open>fill_chart\<close>: the columns in order; the number of columns does not change.\<close>

definition fill_chart :: "grammar \<Rightarrow> symbol list \<Rightarrow> chart \<Rightarrow> chart" where
  "fill_chart g epsilon chart = fold (\<lambda>i ch. fill_col g epsilon ch i 0) [0..<length chart] chart"

text \<open>
  \<^verbatim>\<open>chart_parse\<close>: one column per token, after a first column without letter; the
  start symbol's alternatives seed column 0.
\<close>

definition tokens_of :: "string \<Rightarrow> symbol list" where
  "tokens_of text = map (\<lambda>c. [c]) text"

definition init_chart :: "string \<Rightarrow> chart" where
  "init_chart text =
     map (\<lambda>(i, tok). create_column i tok) (enumerate 0 (None # map Some (tokens_of text)))"

definition chart_parse ::
  "grammar \<Rightarrow> symbol list \<Rightarrow> string \<Rightarrow> symbol \<Rightarrow> alternative list \<Rightarrow> chart" where
  "chart_parse g epsilon text start alts =
     fill_chart g epsilon
       (fold (\<lambda>alt ch. chart_add ch 0 (create_state start alt 0 0)) alts (init_chart text))"

section \<open>The Earley parser object and recognition\<close>

text \<open>
  \<^verbatim>\<open>EarleyParser.__init__\<close> stores the grammar, its nullable set and the flag
  \<^verbatim>\<open>parse_exceptions\<close> (default True); \<^verbatim>\<open>log\<close> only prints.
\<close>

record parser =
  grammar :: grammar
  epsilon :: "symbol list"
  parse_exceptions :: bool

definition EarleyParser :: "grammar \<Rightarrow> bool \<Rightarrow> error + parser" where
  "EarleyParser g pe =
     (case nullable g of
        Inl e \<Rightarrow> Inl e
      | Inr eps \<Rightarrow> Inr \<lparr>grammar = g, epsilon = eps, parse_exceptions = pe\<rparr>)"

text \<open>
  \<^verbatim>\<open>parse_prefix\<close> returns the index of the last column that holds a state of the
  start symbol beginning in column 0, with those states, or \<open>(-1, [])\<close>. It also leaves the
  chart in \<^verbatim>\<open>self.table\<close>, the third component here.
\<close>

definition start_items :: "symbol \<Rightarrow> alternative list \<Rightarrow> column \<Rightarrow> state list" where
  "start_items start alts col =
     filter (\<lambda>st. name st = start \<and> expr st \<in> set alts \<and> s_col st = 0) (states col)"

fun find_prefix :: "symbol \<Rightarrow> alternative list \<Rightarrow> column list \<Rightarrow> int \<times> state list" where
  "find_prefix start alts [] = (-1, [])"
| "find_prefix start alts (col # cols) =
     (if start_items start alts col \<noteq> [] then (int (index col), start_items start alts col)
      else find_prefix start alts cols)"

definition parse_prefix :: "parser \<Rightarrow> string \<Rightarrow> symbol \<Rightarrow> error + (int \<times> state list \<times> chart)" where
  "parse_prefix p text start =
     (case map_of (grammar p) start of
        None \<Rightarrow> Inl (KeyError start)
      | Some alts \<Rightarrow>
          (let table = chart_parse (grammar p) (epsilon p) text start alts;
               (cursor, sts) = find_prefix start alts (rev table)
           in Inr (cursor, sts, table)))"

text \<open>Python's \<^verbatim>\<open>text[cursor:]\<close>; a negative index counts from the end.\<close>

definition py_slice_from :: "'a list \<Rightarrow> int \<Rightarrow> 'a list" where
  "py_slice_from xs c =
     (if c < 0 then drop (nat (int (length xs) + c)) xs else drop (nat c) xs)"

text \<open>
  \<^verbatim>\<open>recognize_on\<close>. The message of the SyntaxError is \<^verbatim>\<open>"at " + repr(text[cursor:])\<close>;
  the model carries the suffix \<^verbatim>\<open>text[cursor:]\<close> itself.
\<close>

definition recognize_on :: "parser \<Rightarrow> string \<Rightarrow> symbol \<Rightarrow> error + (state list \<times> chart)" where
  "recognize_on p text start =
     (case parse_prefix p text start of
        Inl e \<Rightarrow> Inl e
      | Inr (cursor, sts, table) \<Rightarrow>
          (let starts = filter finished sts in
           if parse_exceptions p \<and> (cursor < int (length text) \<or> starts = [])
           then Inl (SyntaxError (py_slice_from text cursor))
           else Inr (starts, table)))"

section \<open>Parse forest and tree extraction (Earley)\<close>

text \<open>
  An element of a parse path is \<^verbatim>\<open>(var, 't')\<close> for a terminal or \<^verbatim>\<open>(state, 'n')\<close>
  for a completed state. A forest node is \<^verbatim>\<open>(name, paths)\<close>; every path element
  also carries the chart, which is the same object throughout and is passed along here.
\<close>

datatype pelem = PT symbol | PN state

type_synonym forest_node = "symbol \<times> pelem list list"

text \<open>
  \<^verbatim>\<open>parse_paths(named_expr, chart, frm, til)\<close>: \<^verbatim>\<open>*expr, var = named_expr\<close> takes the
  last symbol. Both call sites test that the expression is not empty, so the unpacking
  never fails; the model returns no path for the empty expression. A matched terminal is
  the letter of a column, one character long, so \<^verbatim>\<open>til - len(var)\<close> is not negative.
  Paths are built last symbol first.
\<close>

function parse_paths :: "grammar \<Rightarrow> chart \<Rightarrow> alternative \<Rightarrow> nat \<Rightarrow> nat \<Rightarrow> pelem list list" where
  "parse_paths g chart named_expr frm til =
     (if named_expr = [] then []
      else concat (map
        (\<lambda>(s, start).
            if butlast named_expr = [] then (if start = frm then [[s]] else [])
            else map (\<lambda>r. s # r) (parse_paths g chart (butlast named_expr) frm start))
        (if last named_expr \<notin> fst ` set g
         then (if til > 0 \<and> til < length chart \<and> letter (chart ! til) = Some (last named_expr)
               then [(PT (last named_expr), til - length (last named_expr))] else [])
         else map (\<lambda>s. (PN s, s_col s))
                (filter (\<lambda>s. finished s \<and> name s = last named_expr) (col_states chart til)))))"
  by pat_completeness auto
termination
  by (relation "measure (\<lambda>(g, chart, named_expr, frm, til). length named_expr)") auto

declare parse_paths.simps [simp del]

text \<open>
  \<^verbatim>\<open>_parse_forest\<close> (here \<open>parse_forest1\<close>) reads \<^verbatim>\<open>state.e_col.index\<close>, which fails
  on a state that was never added to a column. \<^verbatim>\<open>parse_forest\<close> asserts that
  the states share one name.
\<close>

definition parse_forest1 :: "grammar \<Rightarrow> chart \<Rightarrow> state \<Rightarrow> error + forest_node" where
  "parse_forest1 g chart st =
     (if expr st = [] then Inr (name st, [])
      else (case e_col st of
              None \<Rightarrow> Inl AttributeError
            | Some e \<Rightarrow> Inr (name st, map rev (parse_paths g chart (expr st) (s_col st) e))))"

fun sequence_sum :: "('e + 'a) list \<Rightarrow> 'e + 'a list" where
  "sequence_sum [] = Inr []"
| "sequence_sum (Inl e # xs) = Inl e"
| "sequence_sum (Inr x # xs) = (case sequence_sum xs of Inl e \<Rightarrow> Inl e | Inr ys \<Rightarrow> Inr (x # ys))"

definition parse_forest :: "grammar \<Rightarrow> chart \<Rightarrow> state list \<Rightarrow> error + forest_node" where
  "parse_forest g chart sts =
     (let names = remdups (map name sts) in
      if length names \<noteq> 1 then Inl AssertionError
      else (case sequence_sum (map (parse_forest1 g chart) sts) of
              Inl e \<Rightarrow> Inl e
            | Inr forest \<Rightarrow> Inr (hd names, concat (map snd forest))))"

definition forest :: "grammar \<Rightarrow> chart \<Rightarrow> pelem \<Rightarrow> error + forest_node" where
  "forest g chart p = (case p of PN s \<Rightarrow> parse_forest g chart [s] | PT v \<Rightarrow> Inr (v, []))"

text \<open>
  A derivation tree is \<^verbatim>\<open>(symbol, children)\<close>.

  \<^verbatim>\<open>extract_trees\<close> (the last definition in the file, with \<^verbatim>\<open>itertools.product\<close>)
  is a generator: it yields trees and then either ends or raises. The model returns the
  trees yielded and the error that ended the generator, if any. \<^verbatim>\<open>product\<close> first
  runs each child generator to its end, so an error in a child shows before any tree of
  that path. The first argument bounds the depth of the recursion, as Python's recursion
  limit does; a forest with a cycle runs into it.
\<close>

datatype tree = Node symbol "tree list"

fun gen_all :: "('a list \<times> error option) list \<Rightarrow> error + 'a list list" where
  "gen_all [] = Inr []"
| "gen_all ((ts, Some e) # rest) = Inl e"
| "gen_all ((ts, None) # rest) = (case gen_all rest of Inl e \<Rightarrow> Inl e | Inr tss \<Rightarrow> Inr (ts # tss))"

fun extract_trees :: "nat \<Rightarrow> grammar \<Rightarrow> chart \<Rightarrow> forest_node \<Rightarrow> tree list \<times> error option"
and extract_paths :: "nat \<Rightarrow> grammar \<Rightarrow> chart \<Rightarrow> symbol \<Rightarrow> pelem list list \<Rightarrow> tree list \<times> error option"
where
  "extract_trees 0 g chart node = ([], Some RecursionError)"
| "extract_trees (Suc d) g chart (nm, paths) =
     (let (ts, e) = extract_paths d g chart nm paths
      in ((if paths = [] then [Node nm []] else []) @ ts, e))"
| "extract_paths d g chart nm [] = ([], None)"
| "extract_paths d g chart nm (path # paths) =
     (case sequence_sum (map (forest g chart) path) of
        Inl e \<Rightarrow> ([], Some e)
      | Inr fs \<Rightarrow>
          (case gen_all (map (extract_trees d g chart) fs) of
             Inl e \<Rightarrow> ([], Some e)
           | Inr ptrees \<Rightarrow>
               (let (ts, e) = extract_paths d g chart nm paths
                in (map (Node nm) (product_lists ptrees) @ ts, e))))"


text \<open>\<^verbatim>\<open>EarleyParser.parse_on\<close>.\<close>

definition parse_on :: "nat \<Rightarrow> parser \<Rightarrow> string \<Rightarrow> symbol \<Rightarrow> tree list \<times> error option" where
  "parse_on d p text start =
     (case recognize_on p text start of
        Inl e \<Rightarrow> ([], Some e)
      | Inr (starts, table) \<Rightarrow>
          (case parse_forest (grammar p) table starts of
             Inl e \<Rightarrow> ([], Some e)
           | Inr f \<Rightarrow> extract_trees d (grammar p) table f))"

text \<open>
  \<^verbatim>\<open>tree_to_str\<close>: a worklist of trees; a nonterminal key is replaced by its children,
  any other key must be a leaf and is appended. \<^verbatim>\<open>is_nt\<close> fails on the empty key.
\<close>

function tree_to_str_loop :: "tree list \<Rightarrow> symbol list \<Rightarrow> error + symbol list" where
  "tree_to_str_loop [] expanded = Inr expanded"
| "tree_to_str_loop (Node key children # to_expand) expanded =
     (if key = [] then Inl IndexError
      else if is_nt key then tree_to_str_loop (children @ to_expand) expanded
      else if children \<noteq> [] then Inl AssertionError
      else tree_to_str_loop to_expand (expanded @ [key]))"
  by pat_completeness auto
termination
  by (relation "measure (\<lambda>(ts, ex). size_list size ts)") auto

definition tree_to_str :: "tree \<Rightarrow> error + string" where
  "tree_to_str t = map_sum id concat (tree_to_str_loop [t] [])"

section \<open>EnhancedExtractor over the Earley forest\<close>

text \<open>
  The \<^verbatim>\<open>ChoiceNode\<close>s form a linked list from the root: \<^verbatim>\<open>next\<close> points down,
  \<^verbatim>\<open>_p\<close> up. The model keeps the list from the root; a reference to a node is its
  position. \<^verbatim>\<open>increment\<close> clears \<^verbatim>\<open>next\<close> (cuts the list after the node), adds one
  to \<^verbatim>\<open>_chosen\<close> and moves to the parent when the node is finished; the root has no
  parent.
\<close>

record choice_node =
  chosen :: nat
  total :: nat

record extractor =
  x_grammar :: grammar
  x_chart :: chart
  my_forest :: forest_node
  choices :: "choice_node list"

definition choice_finished :: "choice_node \<Rightarrow> bool" where
  "choice_finished c = (chosen c \<ge> total c)"

fun increment :: "choice_node list \<Rightarrow> nat \<Rightarrow> choice_node list" where
  "increment chain 0 =
     (case chain of [] \<Rightarrow> [] | c # cs \<Rightarrow> [c\<lparr>chosen := chosen c + 1\<rparr>])"
| "increment chain (Suc n) =
     (if Suc n < length chain
      then (let c = (chain ! Suc n)\<lparr>chosen := chosen (chain ! Suc n) + 1\<rparr> in
            if choice_finished c then increment (take (Suc n) chain) n
            else take (Suc n) chain @ [c])
      else chain)"

text \<open>
  \<^verbatim>\<open>choose_path(arr, choices)\<close>; the Earley \<^verbatim>\<open>chosen()\<close> asserts that the node is not
  finished.
\<close>

definition choose_path ::
  "'a list \<Rightarrow> choice_node list \<Rightarrow> nat \<Rightarrow> error + ('a option \<times> nat \<times> choice_node list)" where
  "choose_path arr chain pos =
     (if Suc pos < length chain \<and> choice_finished (chain ! Suc pos) then Inr (None, Suc pos, chain)
      else (let chain' = (if Suc pos < length chain then chain
                          else chain @ [\<lparr>chosen = 0, total = length arr\<rparr>]);
                c = chain' ! Suc pos
            in if choice_finished c then Inl AssertionError
               else if chosen c < length arr then Inr (Some (arr ! chosen c), Suc pos, chain')
               else Inl IndexError))"

text \<open>
  \<^verbatim>\<open>extract_a_node(forest_node, seen, choices)\<close>; \<open>extract_children\<close> is its loop over
  the chosen path. The first argument bounds the recursion depth.
\<close>

type_synonym nid = "symbol \<times> nat \<times> nat"

function (sequential) extract_a_node ::
  "nat \<Rightarrow> grammar \<Rightarrow> chart \<Rightarrow> forest_node \<Rightarrow> nid list \<Rightarrow> choice_node list \<Rightarrow> nat
     \<Rightarrow> error + (tree option \<times> nat \<times> choice_node list)"
and extract_children ::
  "nat \<Rightarrow> grammar \<Rightarrow> chart \<Rightarrow> symbol \<Rightarrow> pelem list \<Rightarrow> tree list \<Rightarrow> nid list \<Rightarrow> choice_node list \<Rightarrow> nat
     \<Rightarrow> error + (tree option \<times> nat \<times> choice_node list)"
where
  "extract_a_node 0 g chart node seen chain pos = Inl RecursionError"
| "extract_a_node (Suc d) g chart (nm, paths) seen chain pos =
     (if paths = [] then Inr (Some (Node nm []), pos, chain)
      else (case choose_path paths chain pos of
              Inl e \<Rightarrow> Inl e
            | Inr (None, new_choices, chain') \<Rightarrow> Inr (None, new_choices, chain')
            | Inr (Some cur_path, new_choices, chain') \<Rightarrow>
                extract_children d g chart nm cur_path [] seen chain' new_choices))"
| "extract_children d g chart nm [] child_nodes seen chain new_choices =
     Inr (Some (Node nm child_nodes), new_choices, chain)"
| "extract_children d g chart nm (PT s # rest) child_nodes seen chain new_choices =
     extract_children d g chart nm rest (child_nodes @ [Node s []]) seen chain new_choices"
| "extract_children d g chart nm (PN s # rest) child_nodes seen chain new_choices =
     (case e_col s of
        None \<Rightarrow> Inl AttributeError
      | Some e \<Rightarrow>
          (let nid = (name s, s_col s, e) in
           if nid \<in> set seen then Inr (None, new_choices, chain)
           else (case forest g chart (PN s) of
                   Inl err \<Rightarrow> Inl err
                 | Inr f \<Rightarrow>
                     (case extract_a_node d g chart f (nid # seen) chain new_choices of
                        Inl err \<Rightarrow> Inl err
                      | Inr (None, newer_choices, chain') \<Rightarrow> Inr (None, newer_choices, chain')
                      | Inr (Some ntree, newer_choices, chain') \<Rightarrow>
                          extract_children d g chart nm rest (child_nodes @ [ntree]) seen chain'
                            newer_choices))))"

  by pat_completeness auto
termination
  by (relation "inv_image (less_than <*lex*> less_than)
        (\<lambda>x. case x of Inl (d, g, chart, node, seen, chain, pos) \<Rightarrow> (d, 0)
                   | Inr (d, g, chart, nm, path, child_nodes, seen, chain, pos) \<Rightarrow> (d, Suc (length path)))")
     auto

text \<open>
  \<^verbatim>\<open>SimpleExtractor.__init__\<close> followed by \<^verbatim>\<open>EnhancedExtractor.__init__\<close>. The
  SyntaxError here carries \<^verbatim>\<open>repr(cursor)\<close>; the model keeps no text for it.
\<close>
definition EnhancedExtractor :: "parser \<Rightarrow> string \<Rightarrow> symbol \<Rightarrow> error + extractor" where
  "EnhancedExtractor p text start =
     (case parse_prefix p text start of
        Inl e \<Rightarrow> Inl e
      | Inr (cursor, sts, table) \<Rightarrow>
          (let starts = filter finished sts in
           if cursor < int (length text) \<or> starts = [] then Inl (SyntaxError [])
           else (case parse_forest (grammar p) table starts of
                   Inl e \<Rightarrow> Inl e
                 | Inr f \<Rightarrow> Inr \<lparr>x_grammar = grammar p, x_chart = table, my_forest = f,
                                 choices = [\<lparr>chosen = 0, total = 1\<rparr>]\<rparr>)))"

text \<open>
  \<^verbatim>\<open>extract_a_tree\<close>: the first argument bounds the number of rounds of the
  \<^verbatim>\<open>while\<close> loop, the second the recursion depth of each round.
\<close>

fun extract_a_tree :: "nat \<Rightarrow> nat \<Rightarrow> extractor \<Rightarrow> error + (tree option \<times> extractor)" where
  "extract_a_tree 0 d x = Inl RecursionError"
| "extract_a_tree (Suc n) d x =
     (if choice_finished (hd (choices x)) then Inr (None, x)
      else (case extract_a_node d (x_grammar x) (x_chart x) (my_forest x) [] (choices x) 0 of
              Inl e \<Rightarrow> Inl e
            | Inr (parse_tree, pos, chain) \<Rightarrow>
                (let x' = x\<lparr>choices := increment chain pos\<rparr> in
                 case parse_tree of
                   Some t \<Rightarrow> Inr (Some t, x')
                 | None \<Rightarrow> extract_a_tree n d x')))"


section \<open>LeoParser: the completer with Leo's optimisation\<close>

text \<open>
  \<^verbatim>\<open>LeoParser\<close> inherits the recognizer and overrides \<^verbatim>\<open>complete\<close>. Its mutable
  state is the chart (the columns now carry \<^verbatim>\<open>transitives\<close>) and the dict
  \<^verbatim>\<open>_postdots\<close>. \<open>dict_set\<close> is Python's \<^verbatim>\<open>d[k] = v\<close> on an insertion-ordered dict.
\<close>

fun dict_set :: "'k \<Rightarrow> 'v \<Rightarrow> ('k \<times> 'v) list \<Rightarrow> ('k \<times> 'v) list" where
  "dict_set k v [] = [(k, v)]"
| "dict_set k v ((k', v') # kvs) = (if k' = k then (k, v) # kvs else (k', v') # dict_set k v kvs)"

record leo =
  l_chart :: chart
  postdots :: "(skey \<times> state) list"

text \<open>
  \<^verbatim>\<open>uniq_postdot(st_A)\<close> (the second definition, which records the link in
  \<^verbatim>\<open>_postdots\<close>).
\<close>

definition uniq_postdot :: "leo \<Rightarrow> state \<Rightarrow> state option \<times> leo" where
  "uniq_postdot ls st_A =
     (let parent_states =
            filter (\<lambda>s. expr s \<noteq> [] \<and> at_dot s = Some (name st_A))
                   (col_states (l_chart ls) (s_col st_A))
      in if length parent_states > 1 then (None, ls)
         else (case filter (\<lambda>s. dot s = length (expr s) - 1) parent_states of
                 [] \<Rightarrow> (None, ls)
               | st_B # _ \<Rightarrow> (Some st_B, ls\<lparr>postdots := dict_set (t_key st_B) st_A (postdots ls)\<rparr>)))"

text \<open>
  \<^verbatim>\<open>Column.add_transitive\<close> (the second definition): asserts that the key is new and
  stores a \<^verbatim>\<open>TState\<close> copy of the state, which it returns.
\<close>

definition col_transitives :: "chart \<Rightarrow> nat \<Rightarrow> (symbol \<times> state) list" where
  "col_transitives chart i = (if i < length chart then transitives (chart ! i) else [])"

definition create_tstate :: "state \<Rightarrow> state" where
  "create_tstate st = st\<lparr>tstate := True\<rparr>"

definition add_transitive :: "leo \<Rightarrow> nat \<Rightarrow> symbol \<Rightarrow> state \<Rightarrow> error + (state option \<times> leo)" where
  "add_transitive ls i key st =
     (if key \<in> fst ` set (col_transitives (l_chart ls) i) then Inl AssertionError
      else Inr (Some (create_tstate st),
                ls\<lparr>l_chart := (l_chart ls)[i := (l_chart ls ! i)
                       \<lparr>transitives := transitives (l_chart ls ! i) @ [(key, create_tstate st)]\<rparr>]\<rparr>))"

text \<open>
  \<^verbatim>\<open>get_top(state_A)\<close> calls itself before it stores the transitive item, and nothing
  bounds that recursion: not returning is the value \<open>None\<close>. The memo is looked up
  under the name of the parent item \<^verbatim>\<open>st_B_inc\<close>, in the column that holds it.
\<close>

partial_function (option) get_top :: "leo \<Rightarrow> state \<Rightarrow> (error + (state option \<times> leo)) option" where
  "get_top ls state_A =
     (case uniq_postdot ls state_A of
        (None, ls1) \<Rightarrow> Some (Inr (None, ls1))
      | (Some st_B_inc, ls1) \<Rightarrow>
          (case e_col st_B_inc of
             None \<Rightarrow> Some (Inl AttributeError)
           | Some e \<Rightarrow>
               (case map_of (col_transitives (l_chart ls1) e) (name st_B_inc) of
                  Some t \<Rightarrow> Some (Inr (Some t, ls1))
                | None \<Rightarrow>
                    Option.bind (get_top ls1 (advance st_B_inc))
                      (\<lambda>r. case r of
                              Inl err \<Rightarrow> Some (Inl err)
                            | Inr (top_opt, ls2) \<Rightarrow>
                                Some (add_transitive ls2 e (name st_B_inc)
                                        (case top_opt of Some t \<Rightarrow> t | None \<Rightarrow> advance st_B_inc))))))"

declare get_top.simps [code]

text \<open>
  \<^verbatim>\<open>leo_complete\<close>: a transitive item is a \<^verbatim>\<open>TState\<close>, whose \<^verbatim>\<open>copy()\<close> is a
  \<^verbatim>\<open>TState\<close> with the same fields; without one, \<^verbatim>\<open>earley_complete\<close>, which is
  \<open>complete\<close>.
\<close>

definition leo_complete :: "leo \<Rightarrow> nat \<Rightarrow> state \<Rightarrow> (error + leo) option" where
  "leo_complete ls i st =
     Option.bind (get_top ls st)
       (\<lambda>r. case r of
               Inl err \<Rightarrow> Some (Inl err)
             | Inr (Some detred, ls1) \<Rightarrow> Some (Inr (ls1\<lparr>l_chart := chart_add (l_chart ls1) i detred\<rparr>))
             | Inr (None, ls1) \<Rightarrow> Some (Inr (ls1\<lparr>l_chart := complete (l_chart ls1) i st\<rparr>)))"

text \<open>The inherited \<^verbatim>\<open>fill_chart\<close>, \<^verbatim>\<open>chart_parse\<close>, \<^verbatim>\<open>parse_prefix\<close> and
  \<^verbatim>\<open>recognize_on\<close>, with the overridden \<^verbatim>\<open>complete\<close>.\<close>

definition leo_fill_step :: "grammar \<Rightarrow> symbol list \<Rightarrow> leo \<Rightarrow> nat \<Rightarrow> state \<Rightarrow> (error + leo) option" where
  "leo_fill_step g eps ls i st =
     (if finished st then leo_complete ls i st
      else (let symb = expr st ! dot st in
            if symb \<in> fst ` set g then Some (Inr (ls\<lparr>l_chart := predict g eps (l_chart ls) i symb st\<rparr>))
            else if i + 1 \<ge> length (l_chart ls) then Some (Inr ls)
            else Some (Inr (ls\<lparr>l_chart := scan (l_chart ls) (i + 1) st symb\<rparr>))))"

partial_function (option) leo_fill_col ::
  "grammar \<Rightarrow> symbol list \<Rightarrow> leo \<Rightarrow> nat \<Rightarrow> nat \<Rightarrow> (error + leo) option" where
  "leo_fill_col g eps ls i k =
     (if k < length (col_states (l_chart ls) i)
      then Option.bind (leo_fill_step g eps ls i (col_states (l_chart ls) i ! k))
             (\<lambda>r. case r of Inl err \<Rightarrow> Some (Inl err)
                            | Inr ls' \<Rightarrow> leo_fill_col g eps ls' i (Suc k))
      else Some (Inr ls))"

declare leo_fill_col.simps [code]

fun leo_fill_cols :: "grammar \<Rightarrow> symbol list \<Rightarrow> nat list \<Rightarrow> leo \<Rightarrow> (error + leo) option" where
  "leo_fill_cols g eps [] ls = Some (Inr ls)"
| "leo_fill_cols g eps (i # is) ls =
     Option.bind (leo_fill_col g eps ls i 0)
       (\<lambda>r. case r of Inl err \<Rightarrow> Some (Inl err) | Inr ls' \<Rightarrow> leo_fill_cols g eps is ls')"

definition leo_fill_chart :: "grammar \<Rightarrow> symbol list \<Rightarrow> leo \<Rightarrow> (error + leo) option" where
  "leo_fill_chart g eps ls = leo_fill_cols g eps [0..<length (l_chart ls)] ls"

definition leo_chart_parse ::
  "grammar \<Rightarrow> symbol list \<Rightarrow> string \<Rightarrow> symbol \<Rightarrow> alternative list \<Rightarrow> (error + leo) option" where
  "leo_chart_parse g eps text start alts =
     leo_fill_chart g eps
       \<lparr>l_chart = fold (\<lambda>alt ch. chart_add ch 0 (create_state start alt 0 0)) alts (init_chart text),
        postdots = []\<rparr>"

definition leo_parse_prefix ::
  "parser \<Rightarrow> string \<Rightarrow> symbol \<Rightarrow> (error + (int \<times> state list \<times> leo)) option" where
  "leo_parse_prefix p text start =
     (case map_of (grammar p) start of
        None \<Rightarrow> Some (Inl (KeyError start))
      | Some alts \<Rightarrow>
          Option.bind (leo_chart_parse (grammar p) (epsilon p) text start alts)
            (\<lambda>r. case r of
                    Inl err \<Rightarrow> Some (Inl err)
                  | Inr ls \<Rightarrow>
                      (let (cursor, sts) = find_prefix start alts (rev (l_chart ls))
                       in Some (Inr (cursor, sts, ls)))))"

definition leo_recognize_on :: "parser \<Rightarrow> string \<Rightarrow> symbol \<Rightarrow> (error + (state list \<times> leo)) option" where
  "leo_recognize_on p text start =
     Option.bind (leo_parse_prefix p text start)
       (\<lambda>r. case r of
               Inl err \<Rightarrow> Some (Inl err)
             | Inr (cursor, sts, ls) \<Rightarrow>
                 (let starts = filter finished sts in
                  if parse_exceptions p \<and> (cursor < int (length text) \<or> starts = [])
                  then Some (Inl (SyntaxError (py_slice_from text cursor)))
                  else Some (Inr (starts, ls))))"


section \<open>Observations of the Earley engines and concrete grammars\<close>

text \<open>
  The results of the parsers hold the whole chart. The following functions show the part
  of a result that a statement is about: the keys of the states, and whether they are
  finished.
\<close>

definition earley_recognize :: "grammar \<Rightarrow> bool \<Rightarrow> string \<Rightarrow> symbol \<Rightarrow> error + skey list" where
  "earley_recognize g pe text start =
     (case EarleyParser g pe of
        Inl e \<Rightarrow> Inl e
      | Inr p \<Rightarrow> map_sum id (\<lambda>(starts, table). map t_key starts) (recognize_on p text start))"

definition earley_accepts :: "grammar \<Rightarrow> string \<Rightarrow> symbol \<Rightarrow> bool" where
  "earley_accepts g text start =
     (case earley_recognize g True text start of Inl e \<Rightarrow> False | Inr starts \<Rightarrow> starts \<noteq> [])"

definition parse_prefix_view ::
  "grammar \<Rightarrow> bool \<Rightarrow> string \<Rightarrow> symbol \<Rightarrow> error + (int \<times> (skey \<times> bool) list)" where
  "parse_prefix_view g pe text start =
     (case EarleyParser g pe of
        Inl e \<Rightarrow> Inl e
      | Inr p \<Rightarrow> map_sum id (\<lambda>(cursor, sts, table). (cursor, map (\<lambda>st. (t_key st, finished st)) sts))
                 (parse_prefix p text start))"

definition parse_on_view ::
  "nat \<Rightarrow> grammar \<Rightarrow> bool \<Rightarrow> string \<Rightarrow> symbol \<Rightarrow> error + (tree list \<times> error option)" where
  "parse_on_view d g pe text start =
     (case EarleyParser g pe of Inl e \<Rightarrow> Inl e | Inr p \<Rightarrow> Inr (parse_on d p text start))"

definition column_keys :: "chart \<Rightarrow> nat \<Rightarrow> (skey \<times> bool) list" where
  "column_keys chart i = map (\<lambda>st. (t_key st, tstate st)) (col_states chart i)"

definition earley_column :: "grammar \<Rightarrow> string \<Rightarrow> symbol \<Rightarrow> nat \<Rightarrow> error + (skey \<times> bool) list" where
  "earley_column g text start i =
     (case EarleyParser g True of
        Inl e \<Rightarrow> Inl e
      | Inr p \<Rightarrow> map_sum id (\<lambda>(cursor, sts, table). column_keys table i) (parse_prefix p text start))"

definition leo_column ::
  "grammar \<Rightarrow> string \<Rightarrow> symbol \<Rightarrow> nat \<Rightarrow> (error + (skey \<times> bool) list) option" where
  "leo_column g text start i =
     (case EarleyParser g True of
        Inl e \<Rightarrow> Some (Inl e)
      | Inr p \<Rightarrow> map_option (map_sum id (\<lambda>(cursor, sts, ls). column_keys (l_chart ls) i))
                 (leo_parse_prefix p text start))"

definition leo_recognize :: "grammar \<Rightarrow> string \<Rightarrow> symbol \<Rightarrow> (error + skey list) option" where
  "leo_recognize g text start =
     (case EarleyParser g True of
        Inl e \<Rightarrow> Some (Inl e)
      | Inr p \<Rightarrow> map_option (map_sum id (\<lambda>(starts, ls). map t_key starts))
                 (leo_recognize_on p text start))"

text \<open>
  Successive calls of \<^verbatim>\<open>extract_a_tree\<close> on one extractor: the trees returned by the
  first \<open>n\<close> calls.
\<close>

fun extract_n :: "nat \<Rightarrow> extractor \<Rightarrow> error + tree option list" where
  "extract_n 0 x = Inr []"
| "extract_n (Suc n) x =
     (case extract_a_tree 100 100 x of
        Inl e \<Rightarrow> Inl e
      | Inr (t, x') \<Rightarrow> (case extract_n n x' of Inl e \<Rightarrow> Inl e | Inr ts \<Rightarrow> Inr (t # ts)))"

definition earley_extract :: "grammar \<Rightarrow> string \<Rightarrow> symbol \<Rightarrow> nat \<Rightarrow> error + tree option list" where
  "earley_extract g text start n =
     (case EarleyParser g True of
        Inl e \<Rightarrow> Inl e
      | Inr p \<Rightarrow> (case EnhancedExtractor p text start of Inl e \<Rightarrow> Inl e | Inr x \<Rightarrow> extract_n n x))"

text \<open>\<^verbatim>\<open><S> ::= a b\<close>.\<close>

definition ab_grammar :: grammar where
  "ab_grammar = [(''<S>'', [[''a'', ''b'']])]"

definition ab_parser :: parser where
  "ab_parser = \<lparr>grammar = ab_grammar, epsilon = [], parse_exceptions = True\<rparr>"

definition ab_table :: chart where
  "ab_table = chart_parse ab_grammar [] ''a'' ''<S>'' [[''a'', ''b'']]"

definition ab_items :: "state list" where
  "ab_items =
     [\<lparr>name = ''<S>'', expr = [''a'', ''b''], dot = 1, s_col = 0, e_col = Some 1, tstate = False\<rparr>]"

text \<open>
  The grammar with a cycle of unit productions:
  \<^verbatim>\<open><A> ::= <B> | a\<close>, \<^verbatim>\<open><B> ::= <A>\<close>. \<open>cyclic_chart\<close> is the chart for the input
  \<^verbatim>\<open>a\<close> when column 0 has been filled, \<open>cyclic_seed\<close> the seeded chart before.
\<close>

definition cyclic_grammar :: grammar where
  "cyclic_grammar = [(''<A>'', [[''<B>''], [''a'']]), (''<B>'', [[''<A>'']])]"

definition cyclic_parser :: parser where
  "cyclic_parser = \<lparr>grammar = cyclic_grammar, epsilon = [], parse_exceptions = True\<rparr>"

definition cyclic_chart :: chart where
  "cyclic_chart =
     [\<lparr>index = 0, letter = None,
       states = [\<lparr>name = ''<A>'', expr = [''<B>''], dot = 0, s_col = 0, e_col = Some 0, tstate = False\<rparr>,
                 \<lparr>name = ''<A>'', expr = [''a''], dot = 0, s_col = 0, e_col = Some 0, tstate = False\<rparr>,
                 \<lparr>name = ''<B>'', expr = [''<A>''], dot = 0, s_col = 0, e_col = Some 0, tstate = False\<rparr>],
       transitives = []\<rparr>,
      \<lparr>index = 1, letter = Some ''a'',
       states = [\<lparr>name = ''<A>'', expr = [''a''], dot = 1, s_col = 0, e_col = Some 1, tstate = False\<rparr>],
       transitives = []\<rparr>]"

definition cyclic_seed :: leo where
  "cyclic_seed =
     \<lparr>l_chart = fold (\<lambda>alt ch. chart_add ch 0 (create_state ''<A>'' alt 0 0))
                   [[''<B>''], [''a'']] (init_chart ''a''),
      postdots = []\<rparr>"

definition cyc_B :: state where
  "cyc_B = \<lparr>name = ''<B>'', expr = [''<A>''], dot = 1, s_col = 0, e_col = None, tstate = False\<rparr>"

definition cyc_A :: state where
  "cyc_A = \<lparr>name = ''<A>'', expr = [''<B>''], dot = 1, s_col = 0, e_col = None, tstate = False\<rparr>"

definition cyc_a :: state where
  "cyc_a = \<lparr>name = ''<A>'', expr = [''a''], dot = 1, s_col = 0, e_col = Some 1, tstate = False\<rparr>"

text \<open>
  Two grammars for the Leo completer.
  \<open>memo_grammar\<close>: \<^verbatim>\<open><S> ::= <B> x | <B> y\<close>, \<^verbatim>\<open><B> ::= <A> | <C>\<close>, \<^verbatim>\<open><A> ::= a\<close>,
  \<^verbatim>\<open><C> ::= a a\<close>.
  \<open>assert_grammar\<close>: \<^verbatim>\<open><B> ::= <A> | x <Y>\<close>, \<^verbatim>\<open><Y> ::= <C>\<close>, \<^verbatim>\<open><C> ::= <B>\<close>,
  \<^verbatim>\<open><A> ::= a\<close>.
\<close>

definition memo_grammar :: grammar where
  "memo_grammar =
     [(''<S>'', [[''<B>'', ''x''], [''<B>'', ''y'']]), (''<B>'', [[''<A>''], [''<C>'']]),
      (''<A>'', [[''a'']]), (''<C>'', [[''a'', ''a'']])]"

definition assert_grammar :: grammar where
  "assert_grammar =
     [(''<B>'', [[''<A>''], [''x'', ''<Y>'']]), (''<Y>'', [[''<C>'']]), (''<C>'', [[''<B>'']]),
      (''<A>'', [[''a'']])]"

text \<open>A grammar with the same alternative twice: \<^verbatim>\<open><S> ::= a | a\<close>.\<close>

definition dup_grammar :: grammar where
  "dup_grammar = [(''<S>'', [[''a''], [''a'']])]"

text \<open>A grammar with the terminal \<^verbatim>\<open>$\<close>: \<^verbatim>\<open><S> ::= $ a\<close>.\<close>

definition dollar_grammar :: grammar where
  "dollar_grammar = [(''<S>'', [[''$'', ''a'']])]"

text \<open>Left recursion with an empty alternative: \<^verbatim>\<open><S> ::= <A>\<close>, \<^verbatim>\<open><A> ::= <A> a | \<close>.\<close>

definition left_grammar :: grammar where
  "left_grammar = [(''<S>'', [[''<A>'']]), (''<A>'', [[''<A>'', ''a''], []])]"

text \<open>
  The spec's glossary calls a nonterminal nullable when it derives the empty string:
  \<open>derives_empty\<close> states this from the spec's words, as a derivation, to be compared
  with the set that \<^verbatim>\<open>nullable\<close> computes. A symbol derives the empty string when it
  is a key of the grammar and all the symbols of one of its alternatives do.
\<close>

inductive derives_empty :: "grammar \<Rightarrow> symbol \<Rightarrow> bool" for g where
  "map_of g k = Some alts \<Longrightarrow> alt \<in> set alts \<Longrightarrow> \<forall>s \<in> set alt. derives_empty g s
     \<Longrightarrow> derives_empty g k"

code_pred derives_empty .

text \<open>
  The grammars of the spec: a mapping (no key twice) whose keys are nonterminals of the
  form \<^verbatim>\<open><...>\<close>, without the empty string as a symbol.
\<close>

definition wf_grammar :: "grammar \<Rightarrow> bool" where
  "wf_grammar g = (distinct (map fst g) \<and>
     list_all (\<lambda>(k, alts). is_nt k \<and> list_all (\<lambda>alt. [] \<notin> set alt) alts) g)"

text \<open>
  One pass of \<^verbatim>\<open>for k in g_cur\<close> in closed form: the keys it finds nullable and the
  working grammar it leaves.
\<close>

definition pass_found :: "symbol \<Rightarrow> grammar \<Rightarrow> symbol list" where
  "pass_found nxt gs = map fst (filter (\<lambda>(k, alts). snd (strip_alts nxt alts)) gs)"

definition pass_next :: "symbol \<Rightarrow> grammar \<Rightarrow> grammar" where
  "pass_next nxt gs =
     filter (\<lambda>(k, alts). alts \<noteq> []) (map (\<lambda>(k, alts). (k, fst (strip_alts nxt alts))) gs)"

text \<open>
  The invariant of the \<^verbatim>\<open>while unprocessed\<close> loop of \<^verbatim>\<open>nullable\<close>, for the set
  \<open>N\<close> of keys found so far, the worklist and the working grammar: every key found derives
  the empty string; every alternative of the working grammar is an alternative of the
  grammar that has lost only symbols found, and none of its symbols is found and already
  processed; every alternative without terminals is still in the working grammar, or its
  key is found.
\<close>

definition null_inv :: "grammar \<Rightarrow> symbol set \<Rightarrow> symbol list \<Rightarrow> grammar \<Rightarrow> bool" where
  "null_inv g N un gc =
     (set un \<subseteq> N
      \<and> (\<forall>k \<in> N. derives_empty g k)
      \<and> (\<forall>(k, alts') \<in> set gc. 
            (\<forall>alt' \<in> set alts'.
               (\<exists>alt \<in> set (alts_of g k). set alt' \<subseteq> set alt \<and> set alt - set alt' \<subseteq> N)
               \<and> (\<forall>s \<in> set alt'. s \<in> N \<longrightarrow> s \<in> set un)))
      \<and> (\<forall>k alt. alt \<in> set (alts_of g k) \<and> (\<forall>t \<in> set alt. is_nt t) \<longrightarrow>
            k \<in> N \<or> (\<exists>alts' alt'. (k, alts') \<in> set gc \<and> alt' \<in> set alts' \<and> alt' \<noteq> []
                          \<and> set alt' \<subseteq> set alt)))"

text \<open>
  Column 0 of the chart of the empty input. \<open>seed_chart\<close> is the chart that
  \<^verbatim>\<open>chart_parse\<close> hands to \<^verbatim>\<open>fill_chart\<close>; every item of the column starts in
  column 0 and the symbols before its dot derive the empty string (\<open>col0_item\<close>); the
  column is closed under the advance that \<^verbatim>\<open>predict\<close> makes over a nullable
  symbol (\<open>closed_at\<close>).
\<close>

definition chart_all :: "(state \<Rightarrow> bool) \<Rightarrow> chart \<Rightarrow> bool" where
  "chart_all P ch = (\<forall>c \<in> set ch. \<forall>st \<in> set (states c). P st)"

definition col0_item :: "grammar \<Rightarrow> state \<Rightarrow> bool" where
  "col0_item g st =
     (s_col st = 0 \<and> expr st \<in> set (alts_of g (name st)) \<and> dot st \<le> length (expr st) \<and>
      (\<forall>s \<in> set (take (dot st) (expr st)). derives_empty g s))"

definition closed_at :: "grammar \<Rightarrow> symbol list \<Rightarrow> state list \<Rightarrow> state \<Rightarrow> bool" where
  "closed_at g eps S st =
     (dot st < length (expr st) \<and> expr st ! dot st \<in> fst ` set g \<and> expr st ! dot st \<in> set eps
        \<longrightarrow> t_key (advance st) \<in> t_key ` set S)"

definition seed_chart :: "symbol \<Rightarrow> alternative list \<Rightarrow> chart" where
  "seed_chart start alts =
     fold (\<lambda>alt ch. chart_add ch 0 (create_state start alt 0 0)) alts [create_column 0 None]"

text \<open>
  The language of a grammar, from the spec's words: a symbol that is not a key is a
  terminal and derives itself as one token; a key derives what the symbols of one of its
  alternatives derive in sequence. The tokens of a text are its one-character substrings.
\<close>

inductive derives :: "grammar \<Rightarrow> symbol \<Rightarrow> symbol list \<Rightarrow> bool"
  and derives_seq :: "grammar \<Rightarrow> alternative \<Rightarrow> symbol list \<Rightarrow> bool"
  for g where
  d_term: "map_of g s = None \<Longrightarrow> derives g s [s]"
| d_rule: "map_of g k = Some alts \<Longrightarrow> alt \<in> set alts \<Longrightarrow> derives_seq g alt w \<Longrightarrow> derives g k w"
| d_nil: "derives_seq g [] []"
| d_cons: "derives g s w1 \<Longrightarrow> derives_seq g ss w2 \<Longrightarrow> derives_seq g (s # ss) (w1 @ w2)"

definition in_language :: "grammar \<Rightarrow> symbol \<Rightarrow> string \<Rightarrow> bool" where
  "in_language g start text = derives g start (tokens_of text)"

text \<open>
  The invariant of the chart: an item of column \<open>j\<close> starts in a column before \<open>j\<close> or
  in \<open>j\<close>, its expression is an alternative of its name, and the symbols before its dot
  derive the tokens from its start column to \<open>j\<close>.
\<close>

definition slice :: "'a list \<Rightarrow> nat \<Rightarrow> nat \<Rightarrow> 'a list" where
  "slice xs i j = take (j - i) (drop i xs)"

definition item_ok :: "grammar \<Rightarrow> symbol list \<Rightarrow> nat \<Rightarrow> state \<Rightarrow> bool" where
  "item_ok g tks j st =
     (s_col st \<le> j \<and> j \<le> length tks \<and> expr st \<in> set (alts_of g (name st)) \<and>
      dot st \<le> length (expr st) \<and>
      derives_seq g (take (dot st) (expr st)) (slice tks (s_col st) j))"

definition chart_items :: "(nat \<Rightarrow> state \<Rightarrow> bool) \<Rightarrow> chart \<Rightarrow> bool" where
  "chart_items P ch = (\<forall>j < length ch. \<forall>st \<in> set (states (ch ! j)). P j st)"

text \<open>
  Further invariants of the chart. An item of column \<open>j\<close> has that column as its end
  column, and starts there when its dot is at the start (\<open>item_loc\<close>). Every item with
  the dot past a symbol \<open>x\<close> has a reason in the chart (\<open>prov\<close>): the item before the
  step is in the previous column and \<open>x\<close> is the letter of this column (scan), or it is
  in the start column of a completed item of \<open>x\<close> of this column (complete), or it is
  in this column and \<open>x\<close> is nullable (predict). \<open>chart_le\<close> orders the charts by
  the items they hold.
\<close>

definition item_loc :: "nat \<Rightarrow> state \<Rightarrow> bool" where
  "item_loc j st = (e_col st = Some j \<and> (dot st = 0 \<longrightarrow> s_col st = j))"

definition has_key :: "chart \<Rightarrow> nat \<Rightarrow> skey \<Rightarrow> bool" where
  "has_key ch j k = (k \<in> t_key ` set (col_states ch j))"

definition prov :: "grammar \<Rightarrow> symbol list \<Rightarrow> chart \<Rightarrow> nat \<Rightarrow> state \<Rightarrow> bool" where
  "prov g eps ch j st =
     (dot st = 0 \<or>
      (let x = expr st ! (dot st - 1); pre = (name st, expr st, dot st - 1, s_col st) in
         (x \<notin> fst ` set g \<and> 0 < j \<and> j < length ch \<and> letter (ch ! j) = Some x \<and> has_key ch (j - 1) pre)
       \<or> (x \<in> fst ` set g \<and>
            (\<exists>s \<in> set (col_states ch j). finished s \<and> name s = x \<and> has_key ch (s_col s) pre))
       \<or> (x \<in> fst ` set g \<and> x \<in> set eps \<and> has_key ch j pre)))"

definition chart_le :: "chart \<Rightarrow> chart \<Rightarrow> bool" where
  "chart_le ch ch' = (map letter ch' = map letter ch \<and>
     (\<forall>j. set (col_states ch j) \<subseteq> set (col_states ch' j)))"

definition chart_prov :: "grammar \<Rightarrow> symbol list \<Rightarrow> chart \<Rightarrow> bool" where
  "chart_prov g eps ch = (\<forall>j < length ch. \<forall>st \<in> set (states (ch ! j)). prov g eps ch j st)"

definition chart_loc :: "chart \<Rightarrow> bool" where
  "chart_loc ch = (\<forall>j < length ch. index (ch ! j) = j \<and> (\<forall>st \<in> set (states (ch ! j)). item_loc j st))"

definition chart_inv :: "grammar \<Rightarrow> symbol list \<Rightarrow> symbol list \<Rightarrow> chart \<Rightarrow> bool" where
  "chart_inv g eps tks ch =
     (map letter ch = None # map Some tks \<and> chart_items (item_ok g tks) ch \<and>
      chart_prov g eps ch \<and> chart_loc ch)"

text \<open>
  After \<^verbatim>\<open>fill_chart\<close> every column is closed under \<^verbatim>\<open>predict\<close>: the alternatives
  of a key at a dot are in the column (\<open>pred_at\<close>), as well as the advance over a
  nullable key (\<open>closed_at\<close>).
\<close>

definition pred_at :: "grammar \<Rightarrow> nat \<Rightarrow> state list \<Rightarrow> state \<Rightarrow> bool" where
  "pred_at g i S st =
     (dot st < length (expr st) \<and> expr st ! dot st \<in> fst ` set g
        \<longrightarrow> (\<forall>alt \<in> set (alts_of g (expr st ! dot st)).
               (expr st ! dot st, alt, 0, i) \<in> t_key ` set S))"

definition col_closed :: "grammar \<Rightarrow> symbol list \<Rightarrow> chart \<Rightarrow> nat \<Rightarrow> bool" where
  "col_closed g eps ch j =
     (\<forall>st \<in> set (col_states ch j).
        closed_at g eps (col_states ch j) st \<and> pred_at g j (col_states ch j) st)"

definition chart_final :: "grammar \<Rightarrow> symbol list \<Rightarrow> symbol list \<Rightarrow> chart \<Rightarrow> bool" where
  "chart_final g eps tks T =
     (chart_inv g eps tks T \<and> (\<forall>j < length T. col_closed g eps T j) \<and>
      set eps = {k. derives_empty g k} \<and> (\<forall>t \<in> set tks. length t = 1))"

text \<open>
  A path of the forest, read left to right, covers the tokens from \<open>a\<close> to \<open>b\<close>: a
  terminal covers one token, a completed state covers the tokens from its start column to
  the column that holds it. \<open>yield\<close> is the sequence of the leaves of a tree that
  \<^verbatim>\<open>tree_to_str\<close> joins, for a tree on which it raises no error (\<open>wf_tree\<close>).
\<close>

definition espan :: "chart \<Rightarrow> symbol list \<Rightarrow> pelem \<Rightarrow> nat \<Rightarrow> nat \<Rightarrow> bool" where
  "espan ch tks p a b =
     (case p of
        PT v \<Rightarrow> b = Suc a \<and> a < length tks \<and> v = tks ! a
      | PN s \<Rightarrow> s \<in> set (col_states ch b) \<and> finished s \<and> s_col s = a)"

fun fspan :: "chart \<Rightarrow> symbol list \<Rightarrow> pelem list \<Rightarrow> nat \<Rightarrow> nat \<Rightarrow> bool" where
  "fspan ch tks [] a b = (a = b)"
| "fspan ch tks (p # ps) a b = (\<exists>c. espan ch tks p a c \<and> fspan ch tks ps c b)"

fun yield :: "tree \<Rightarrow> symbol list" where
  "yield (Node k cs) = (if is_nt k then concat (map yield cs) else [k])"

fun wf_tree :: "tree \<Rightarrow> bool" where
  "wf_tree (Node k cs) = (k \<noteq> [] \<and> (\<not> is_nt k \<longrightarrow> cs = []) \<and> (\<forall>c \<in> set cs. wf_tree c))"

text \<open>
  The round trip of a tree: \<^verbatim>\<open>parse_on(tree_to_str(t), start)\<close> yields \<open>t\<close>.
\<close>

definition round_trip :: "nat \<Rightarrow> grammar \<Rightarrow> symbol \<Rightarrow> tree \<Rightarrow> bool" where
  "round_trip d g start t =
     (case tree_to_str t of
        Inl e \<Rightarrow> False
      | Inr s \<Rightarrow> (case parse_on_view d g True s start of
                    Inl e \<Rightarrow> False
                  | Inr (ts, e) \<Rightarrow> t \<in> set ts))"

section \<open>GLL: first, follow and nullable sets (GLL.py)\<close>

text \<open>
  Modelled from the spec: \<^verbatim>\<open>fuzzer.is_nonterminal\<close> and \<^verbatim>\<open>fuzzer.is_terminal\<close> come
  from the package \<^verbatim>\<open>simplefuzzer\<close>, which is not part of the sources. The
  specification says that a nonterminal is a symbol of the form \<^verbatim>\<open><...>\<close> and that
  everything else is a terminal.
\<close>

definition is_nonterminal :: "symbol \<Rightarrow> bool" where
  "is_nonterminal k = is_nt k"

definition is_terminal :: "symbol \<Rightarrow> bool" where
  "is_terminal k = (\<not> is_nonterminal k)"

text \<open>
  \<^verbatim>\<open>symbols(grammar)\<close>: the sorted terminals and nonterminals that occur in the
  alternatives. A key that occurs in no alternative is not among them.
\<close>

definition symbols :: "grammar \<Rightarrow> symbol list \<times> symbol list" where
  "symbols g =
     (let ts = concat (map (\<lambda>(k, alts). concat alts) g) in
      (sort (remdups (filter (\<lambda>t. \<not> is_nonterminal t) ts)),
       sort (remdups (filter is_nonterminal ts))))"

text \<open>
  \<^verbatim>\<open>get_first_and_follow\<close>. The dicts map symbols to Python sets, kept as
  duplicate-free lists. \<^verbatim>\<open>union(a, b)\<close> is \<^verbatim>\<open>a |= b\<close> and tells whether \<open>a\<close> grew.
  \<open>first_loop\<close> and \<open>follow_loop\<close> are the two inner loops over a rule,
  \<open>ff_production\<close> the body for one production, \<open>ff_loop\<close> the \<^verbatim>\<open>while True\<close>.
\<close>

type_synonym setdict = "(symbol \<times> symbol list) list"

definition dget :: "setdict \<Rightarrow> symbol \<Rightarrow> symbol list" where
  "dget d k = (case map_of d k of Some v \<Rightarrow> v | None \<Rightarrow> [])"

definition union :: "symbol list \<Rightarrow> symbol list \<Rightarrow> symbol list \<times> nat" where
  "union a b =
     (let a' = a @ remdups (filter (\<lambda>x. x \<notin> set a) b)
      in (a', if length a' \<noteq> length a then 1 else 0))"

fun first_loop ::
  "symbol list \<Rightarrow> symbol \<Rightarrow> alternative \<Rightarrow> setdict \<times> nat \<Rightarrow> setdict \<times> bool \<times> nat" where
  "first_loop nulls k [] (first, added) = (first, True, added)"
| "first_loop nulls k (t # ts) (first, added) =
     (let (fk, c) = union (dget first k) (dget first t);
          first' = dict_set k fk first
      in if t \<notin> set nulls then (first', False, added + c)
         else first_loop nulls k ts (first', added + c))"

fun follow_loop ::
  "setdict \<Rightarrow> symbol list \<Rightarrow> alternative \<Rightarrow> setdict \<times> symbol list \<times> nat \<Rightarrow> setdict \<times> nat" where
  "follow_loop first nulls [] (follow, follow', added) = (follow, added)"
| "follow_loop first nulls (t # ts) (follow, follow', added) =
     (let (follow1, added1) =
            (if t \<in> fst ` set follow
             then (let (ft, c) = union (dget follow t) follow'
                   in (dict_set t ft follow, added + c))
             else (follow, added));
          follow'' = (if t \<in> set nulls then fst (union follow' (dget first t))
                      else dget first t)
      in follow_loop first nulls ts (follow1, follow'', added1))"

definition ff_production ::
  "symbol \<times> alternative \<Rightarrow> setdict \<times> setdict \<times> symbol list \<times> nat
     \<Rightarrow> setdict \<times> setdict \<times> symbol list \<times> nat" where
  "ff_production kr acc =
     (case (kr, acc) of ((k, rule), (first, follow, nulls, added)) \<Rightarrow>
        (let (first1, can_be_empty, added1) = first_loop nulls k rule (first, added);
             (nulls1, added2) =
                (if can_be_empty
                 then (let (n, c) = union nulls [k] in (n, added1 + c))
                 else (nulls, added1));
             (follow1, added3) =
                follow_loop first1 nulls1 (rev rule) (follow, dget follow k, added2)
         in (first1, follow1, nulls1, added3)))"

partial_function (option) ff_loop ::
  "(symbol \<times> alternative) list \<Rightarrow> setdict \<times> setdict \<times> symbol list
     \<Rightarrow> (setdict \<times> setdict \<times> symbol list) option" where
  "ff_loop productions s =
     (case s of (first, follow, nulls) \<Rightarrow>
        (case fold ff_production productions (first, follow, nulls, 0) of
           (first', follow', nulls2, added) \<Rightarrow>
             if added = 0 then Some (first', follow', nulls2)
             else ff_loop productions (first', follow', nulls2)))"

declare ff_loop.simps [code]

definition get_first_and_follow ::
  "grammar \<Rightarrow> (error + setdict \<times> setdict \<times> symbol list) option" where
  "get_first_and_follow g =
     (if has_empty_symbol g then Some (Inl IndexError)
      else (let (terminals, nonterminals) = symbols g;
                first = map (\<lambda>i. (i, [])) nonterminals @ map (\<lambda>i. (i, [i])) terminals;
                follow = map (\<lambda>i. (i, [])) nonterminals
            in case filter (\<lambda>k. map_of g k = None) nonterminals of
                 k # _ \<Rightarrow> Some (Inl (KeyError k))
               | [] \<Rightarrow>
                   map_option Inr
                     (ff_loop (concat (map (\<lambda>k. map (\<lambda>rule. (k, rule)) (alts_of g k)) nonterminals))
                        (first, follow, []))))"


section \<open>GLL: graph-structured stack and shared packed parse forest\<close>

text \<open>
  A label \<^verbatim>\<open>L\<close> of the driver is a string (\<^verbatim>\<open>'L0'\<close>, \<^verbatim>\<open>'L_'\<close> or a key of the
  grammar) or a slot \<^verbatim>\<open>(key, n_alt, pos)\<close>. A GSS node is known by its label
  \<^verbatim>\<open>(L, index)\<close>, an SPPF node by its key in \<^verbatim>\<open>SPPF_nodes\<close>:
  \<^verbatim>\<open>(label, j, i)\<close>, where the label is \<^verbatim>\<open>None\<close>, a string, a slot, or
  \<^verbatim>\<open>('P', slot, k)\<close> for a packed node. Both classes compare by label, and the dicts
  hold one object per key, so the keys stand for the objects. The label of a packed node
  is \<^verbatim>\<open>(slot, k)\<close>, the first component of its key. \<open>N_ID\<close> is the module's
  counter of node ids.
\<close>

datatype label = LStr string | LSlot symbol nat nat

datatype slabel = SNone | SStr string | SSlot symbol nat nat | SPacked symbol nat nat nat

type_synonym gss_label = "label \<times> nat"
type_synonym sppf_key = "slabel \<times> nat \<times> nat"

datatype node_kind = Dummy_node | Symbol_node | Intermediate_node | Packed_node

record sppf_node =
  kind :: node_kind
  children :: "sppf_key list"
  nid :: nat

record gll =
  I :: string
  m :: nat
  gss_graph :: "(gss_label \<times> (gss_label \<times> sppf_key) list) list"
  gss_P :: "(gss_label \<times> sppf_key list) list"
  threads :: "(label \<times> gss_label \<times> nat \<times> sppf_key) list"
  U :: "(label \<times> gss_label \<times> sppf_key) list list"
  SPPF_nodes :: "(sppf_key \<times> sppf_node) list"
  g_grammar :: grammar
  g_nullable :: "symbol list"
  root :: "sppf_key option"
  N_ID :: nat

text \<open>
  \<^verbatim>\<open>GSS.get\<close>, \<^verbatim>\<open>GLLStructuredStackP.initialize\<close> and \<^verbatim>\<open>set_grammar\<close>.
\<close>

definition stack_bottom :: gss_label where
  "stack_bottom = (LStr ''L0'', 0)"

definition gss_get :: "gll \<Rightarrow> gss_label \<Rightarrow> gll" where
  "gss_get p my_label =
     (if my_label \<in> fst ` set (gss_graph p) then p
      else p\<lparr>gss_graph := gss_graph p @ [(my_label, [])],
             gss_P := dict_set my_label [] (gss_P p)\<rparr>)"

definition initialize :: "nat \<Rightarrow> string \<Rightarrow> gll" where
  "initialize n_id input_str =
     gss_get
       \<lparr>I = input_str @ ''$'', m = length input_str, gss_graph = [], gss_P = [], threads = [],
        U = replicate (length input_str + 1) [], SPPF_nodes = [], g_grammar = [],
        g_nullable = [], root = None, N_ID = n_id\<rparr>
       stack_bottom"

definition set_grammar :: "gll \<Rightarrow> grammar \<Rightarrow> (error + gll) option" where
  "set_grammar p g =
     map_option (map_sum id (\<lambda>(first, follow, nulls). p\<lparr>g_grammar := g, g_nullable := nulls\<rparr>))
       (get_first_and_follow g)"

text \<open>\<^verbatim>\<open>add_thread\<close>; \<^verbatim>\<open>U\<close> has one list per index \<open>0..m\<close>.\<close>

definition add_thread :: "gll \<Rightarrow> label \<Rightarrow> gss_label \<Rightarrow> nat \<Rightarrow> sppf_key \<Rightarrow> error + gll" where
  "add_thread p L stack_top cur_idx sppf_w =
     (if cur_idx \<ge> length (U p) then Inl IndexError
      else if (L, stack_top, sppf_w) \<notin> set (U p ! cur_idx)
      then Inr (p\<lparr>U := (U p)[cur_idx := U p ! cur_idx @ [(L, stack_top, sppf_w)]],
                  threads := threads p @ [(L, stack_top, cur_idx, sppf_w)]\<rparr>)
      else Inr p)"

text \<open>
  \<^verbatim>\<open>sppf_find_or_create\<close>: a new node is a dummy node when its label is \<^verbatim>\<open>None\<close>
  or \<^verbatim>\<open>'$'\<close>, a symbol node when the label is a string, an intermediate node
  otherwise.
\<close>

definition sppf_find_or_create :: "gll \<Rightarrow> slabel \<Rightarrow> nat \<Rightarrow> nat \<Rightarrow> sppf_key \<times> gll" where
  "sppf_find_or_create p lab j i =
     (let n = (lab, j, i) in
      if n \<notin> fst ` set (SPPF_nodes p)
      then (n, p\<lparr>SPPF_nodes := SPPF_nodes p @
                     [(n, \<lparr>kind = (if lab = SNone \<or> lab = SStr ''$'' then Dummy_node
                                    else (case lab of SStr _ \<Rightarrow> Symbol_node
                                                    | _ \<Rightarrow> Intermediate_node)),
                            children = [], nid = N_ID p + 1\<rparr>)],
                 N_ID := N_ID p + 1\<rparr>)
      else (n, p))"

definition getNodeT :: "gll \<Rightarrow> symbol option \<Rightarrow> nat \<Rightarrow> sppf_key \<times> gll" where
  "getNodeT p x i =
     (case x of None \<Rightarrow> sppf_find_or_create p SNone i i
              | Some c \<Rightarrow> sppf_find_or_create p (SStr c) i (i + 1))"

text \<open>\<^verbatim>\<open>getNodeP\<close> with its helpers \<^verbatim>\<open>is_non_nullable_alpha\<close> and \<^verbatim>\<open>not_dummy\<close>.\<close>

definition is_non_nullable_alpha :: "gll \<Rightarrow> alternative \<Rightarrow> bool" where
  "is_non_nullable_alpha p alpha =
     (if alpha = [] then False
      else if length alpha \<noteq> 1 then False
      else if is_terminal (hd alpha) then True
      else if hd alpha \<in> set (g_nullable p) then False
      else True)"

definition node_kind_of :: "gll \<Rightarrow> sppf_key \<Rightarrow> node_kind option" where
  "node_kind_of p n = map_option kind (map_of (SPPF_nodes p) n)"

definition not_dummy :: "gll \<Rightarrow> sppf_key \<Rightarrow> error + bool" where
  "not_dummy p sppf_w =
     (if fst sppf_w = SStr ''$''
      then (if node_kind_of p sppf_w = Some Dummy_node then Inr False else Inl AssertionError)
      else (if node_kind_of p sppf_w = Some Dummy_node then Inl AssertionError else Inr True))"

definition add_child :: "gll \<Rightarrow> sppf_key \<Rightarrow> sppf_key \<Rightarrow> gll" where
  "add_child p y c =
     p\<lparr>SPPF_nodes := map (\<lambda>(n, nd). if n = y then (n, nd\<lparr>children := children nd @ [c]\<rparr>)
                                      else (n, nd)) (SPPF_nodes p)\<rparr>"

definition node_children :: "gll \<Rightarrow> sppf_key \<Rightarrow> sppf_key list" where
  "node_children p n = (case map_of (SPPF_nodes p) n of Some nd \<Rightarrow> children nd | None \<Rightarrow> [])"

definition getNodeP :: "gll \<Rightarrow> label \<Rightarrow> sppf_key \<Rightarrow> sppf_key \<Rightarrow> error + (sppf_key \<times> gll)" where
  "getNodeP p X_rule_pos sppf_w sppf_z =
     (case X_rule_pos of
        LStr _ \<Rightarrow> Inl ValueError
      | LSlot X nalt dt \<Rightarrow>
          (case map_of (g_grammar p) X of
             None \<Rightarrow> Inl (KeyError X)
           | Some alts \<Rightarrow>
               if nalt \<ge> length alts then Inl IndexError
               else (let rule = alts ! nalt; alpha = take dt rule; beta = drop dt rule in
                     if is_non_nullable_alpha p alpha \<and> beta \<noteq> [] then Inr (sppf_z, p)
                     else (let t = (if beta = [] then SStr X else SSlot X nalt dt);
                               k = fst (snd sppf_z); i = snd (snd sppf_z)
                           in case not_dummy p sppf_w of
                                Inl e \<Rightarrow> Inl e
                              | Inr nd \<Rightarrow>
                                  (let j = (if nd then fst (snd sppf_w) else k);
                                       cs = (if nd then [sppf_w, sppf_z] else [sppf_z]);
                                       (y, p1) = sppf_find_or_create p t j i
                                   in if filter (\<lambda>c. fst c = SPacked X nalt dt k) (node_children p1 y) = []
                                      then (let key = (SPacked X nalt dt k, j, i) in
                                            if key \<in> fst ` set (SPPF_nodes p1) then Inl AssertionError
                                            else Inr (y, add_child
                                                     (p1\<lparr>SPPF_nodes := SPPF_nodes p1 @
                                                           [(key, \<lparr>kind = Packed_node, children = cs,
                                                                   nid = N_ID p1 + 1\<rparr>)],
                                                         N_ID := N_ID p1 + 1\<rparr>) y key))
                                      else Inr (y, p1))))))"

text \<open>\<^verbatim>\<open>fn_return\<close> (pop) and \<^verbatim>\<open>register_return\<close> (create), each with its loop.\<close>

fun fn_return_loop ::
  "label \<Rightarrow> nat \<Rightarrow> sppf_key \<Rightarrow> (gss_label \<times> sppf_key) list \<Rightarrow> gll \<Rightarrow> error + gll" where
  "fn_return_loop L cur_idx sppf_z [] p = Inr p"
| "fn_return_loop L cur_idx sppf_z ((c_st, sppf_w) # rest) p =
     (case getNodeP p L sppf_w sppf_z of
        Inl e \<Rightarrow> Inl e
      | Inr (sppf_y, p1) \<Rightarrow>
          (case add_thread p1 L c_st cur_idx sppf_y of
             Inl e \<Rightarrow> Inl e
           | Inr p2 \<Rightarrow> fn_return_loop L cur_idx sppf_z rest p2))"

definition gss_children :: "gll \<Rightarrow> gss_label \<Rightarrow> (gss_label \<times> sppf_key) list" where
  "gss_children p u = (case map_of (gss_graph p) u of Some cs \<Rightarrow> cs | None \<Rightarrow> [])"

definition fn_return :: "gll \<Rightarrow> gss_label \<Rightarrow> nat \<Rightarrow> sppf_key \<Rightarrow> error + gll" where
  "fn_return p stack_top cur_idx sppf_z =
     (if stack_top \<noteq> stack_bottom
      then (case map_of (gss_P p) stack_top of
              None \<Rightarrow> Inl (KeyError [])
            | Some zs \<Rightarrow>
                fn_return_loop (fst stack_top) cur_idx sppf_z (gss_children p stack_top)
                  (p\<lparr>gss_P := dict_set stack_top (zs @ [sppf_z]) (gss_P p)\<rparr>))
      else Inr p)"

fun register_return_loop ::
  "label \<Rightarrow> gss_label \<Rightarrow> sppf_key \<Rightarrow> sppf_key list \<Rightarrow> gll \<Rightarrow> error + gll" where
  "register_return_loop L stack_top sppf_w [] p = Inr p"
| "register_return_loop L stack_top sppf_w (sppf_z # rest) p =
     (case getNodeP p L sppf_w sppf_z of
        Inl e \<Rightarrow> Inl e
      | Inr (sppf_y, p1) \<Rightarrow>
          (case add_thread p1 L stack_top (snd (snd sppf_z)) sppf_y of
             Inl e \<Rightarrow> Inl e
           | Inr p2 \<Rightarrow> register_return_loop L stack_top sppf_w rest p2))"

definition register_return ::
  "gll \<Rightarrow> label \<Rightarrow> gss_label \<Rightarrow> nat \<Rightarrow> sppf_key \<Rightarrow> error + (gss_label \<times> gll)" where
  "register_return p L stack_top cur_idx sppf_w =
     (let v = (L, cur_idx); p1 = gss_get p v in
      if filter (\<lambda>(c, lbl). c = stack_top \<and> lbl = sppf_w) (gss_children p1 v) = []
      then (case register_return_loop L stack_top sppf_w
                   (case map_of (gss_P p1) v of Some zs \<Rightarrow> zs | None \<Rightarrow> [])
                   (p1\<lparr>gss_graph := dict_set v (gss_children p1 v @ [(stack_top, sppf_w)])
                                       (gss_graph p1)\<rparr>) of
              Inl e \<Rightarrow> Inl e
            | Inr p2 \<Rightarrow> Inr (v, p2))
      else Inr (v, p1))"

section \<open>GLL: the compiled driver\<close>

text \<open>
  \<^verbatim>\<open>compile_grammar\<close> writes the text of \<^verbatim>\<open>recognize_on\<close> for the grammar and
  executes it: one branch for \<^verbatim>\<open>'L0'\<close>, one for \<^verbatim>\<open>'L_'\<close>, one per key, one
  per slot, and \<^verbatim>\<open>assert False\<close> at the end. \<open>gll_step\<close> is one round of the
  \<^verbatim>\<open>while True\<close> loop of that text, read off the templates of
  \<^verbatim>\<open>compile_def\<close>, \<^verbatim>\<open>compile_rule\<close>, \<^verbatim>\<open>compile_terminal\<close>,
  \<^verbatim>\<open>compile_nonterminal\<close> and \<^verbatim>\<open>compile_epsilon\<close>; it returns the result of
  the function or the next configuration. The templates paste the symbols between
  quotes; the model takes the pasted literal to denote the symbol. That holds for the
  symbols that are Python literals of themselves when pasted; for a symbol that is not (a
  backslash, a line break, the quote of the template inside a key), Python rejects the
  generated text with a SyntaxError when \<^verbatim>\<open>compile_grammar\<close> executes it, before any
  input is read, and the model does not cover that failure. Whether a symbol of a
  rule gets the terminal or the nonterminal branch is decided by
  \<^verbatim>\<open>fuzzer.is_nonterminal\<close>. \<^verbatim>\<open>recognize_on\<close> returns the parser or \<^verbatim>\<open>[]\<close>.
\<close>

record config =
  c_L :: label
  c_stack_top :: gss_label
  c_cur_idx :: nat
  c_cur_sppf_node :: sppf_key
  c_parser :: gll

datatype gll_result = Parsed gll | NoParse

fun add_threads :: "symbol \<Rightarrow> nat list \<Rightarrow> gss_label \<Rightarrow> nat \<Rightarrow> sppf_key \<Rightarrow> gll \<Rightarrow> error + gll" where
  "add_threads key [] stack_top cur_idx end_rule p = Inr p"
| "add_threads key (n_alt # ns) stack_top cur_idx end_rule p =
     (case add_thread p (LSlot key n_alt 0) stack_top cur_idx end_rule of
        Inl e \<Rightarrow> Inl e
      | Inr p1 \<Rightarrow> add_threads key ns stack_top cur_idx end_rule p1)"

definition end_rule :: sppf_key where
  "end_rule = (SStr ''$'', 0, 0)"

definition gll_step :: "symbol \<Rightarrow> config \<Rightarrow> (error + gll_result) + config" where
  "gll_step start_symbol c =
     (let L = c_L c; stack_top = c_stack_top c; cur_idx = c_cur_idx c;
          cur_sppf_node = c_cur_sppf_node c; parser = c_parser c
      in
      if L = LStr ''L0'' then
        (case threads parser of
           t # ts \<Rightarrow> (case t of (L', u, i, w) \<Rightarrow>
              Inr \<lparr>c_L = L', c_stack_top = u, c_cur_idx = i, c_cur_sppf_node = w,
                   c_parser = parser\<lparr>threads := ts\<rparr>\<rparr>)
         | [] \<Rightarrow>
             if (SStr start_symbol, 0, m parser) \<in> fst ` set (SPPF_nodes parser)
             then Inl (Inr (Parsed (parser\<lparr>root := Some (SStr start_symbol, 0, m parser)\<rparr>)))
             else Inl (Inr NoParse))
      else if L = LStr ''L_'' then
        (case fn_return parser stack_top cur_idx cur_sppf_node of
           Inl e \<Rightarrow> Inl (Inl e)
         | Inr p1 \<Rightarrow> Inr (c\<lparr>c_L := LStr ''L0'', c_parser := p1\<rparr>))
      else
        (case L of
           LStr key \<Rightarrow>
             (case map_of (g_grammar parser) key of
                None \<Rightarrow> Inl (Inl AssertionError)
              | Some definition' \<Rightarrow>
                  (case add_threads key [0..<length definition'] stack_top cur_idx end_rule parser of
                     Inl e \<Rightarrow> Inl (Inl e)
                   | Inr p1 \<Rightarrow> Inr (c\<lparr>c_L := LStr ''L0'', c_parser := p1\<rparr>)))
         | LSlot key n_alt r_pos \<Rightarrow>
             (case map_of (g_grammar parser) key of
                None \<Rightarrow> Inl (Inl AssertionError)
              | Some definition' \<Rightarrow>
                  if n_alt \<ge> length definition' then Inl (Inl AssertionError)
                  else (let rule = definition' ! n_alt in
                    if rule = [] then
                      (if r_pos \<noteq> 0 then Inl (Inl AssertionError)
                       else (let (right_sppf_child, p1) = getNodeT parser None cur_idx in
                             case getNodeP p1 L cur_sppf_node right_sppf_child of
                               Inl e \<Rightarrow> Inl (Inl e)
                             | Inr (w, p2) \<Rightarrow>
                                 Inr (c\<lparr>c_L := LStr ''L_'', c_cur_sppf_node := w, c_parser := p2\<rparr>)))
                    else if r_pos < length rule then
                      (let token = rule ! r_pos in
                       if is_nonterminal token then
                         (case register_return parser (LSlot key n_alt (r_pos + 1)) stack_top cur_idx
                                 cur_sppf_node of
                            Inl e \<Rightarrow> Inl (Inl e)
                          | Inr (v, p1) \<Rightarrow>
                              Inr (c\<lparr>c_L := LStr token, c_stack_top := v, c_parser := p1\<rparr>))
                       else if cur_idx \<ge> length (I parser) then Inl (Inl IndexError)
                       else if [I parser ! cur_idx] = token then
                         (let (right_sppf_child, p1) = getNodeT parser (Some [I parser ! cur_idx]) cur_idx;
                              L' = LSlot key n_alt (r_pos + 1)
                          in case getNodeP p1 L' cur_sppf_node right_sppf_child of
                               Inl e \<Rightarrow> Inl (Inl e)
                             | Inr (w, p2) \<Rightarrow>
                                 Inr \<lparr>c_L = L', c_stack_top = stack_top, c_cur_idx = cur_idx + 1,
                                      c_cur_sppf_node = w, c_parser = p2\<rparr>)
                       else Inr (c\<lparr>c_L := LStr ''L0''\<rparr>))
                    else if r_pos = length rule then Inr (c\<lparr>c_L := LStr ''L_''\<rparr>)
                    else Inl (Inl AssertionError)))))"

partial_function (option) gll_loop :: "symbol \<Rightarrow> config \<Rightarrow> (error + gll_result) option" where
  "gll_loop start_symbol c =
     (case gll_step start_symbol c of
        Inl r \<Rightarrow> Some r
      | Inr c' \<Rightarrow> gll_loop start_symbol c')"

declare gll_loop.simps [code]

definition gll_init :: "nat \<Rightarrow> grammar \<Rightarrow> string \<Rightarrow> symbol \<Rightarrow> (error + config) option" where
  "gll_init n_id g text start_symbol =
     map_option (map_sum id (\<lambda>p.
         (let (e, p1) = sppf_find_or_create p (SStr ''$'') 0 0
          in \<lparr>c_L = LStr start_symbol, c_stack_top = stack_bottom, c_cur_idx = 0,
               c_cur_sppf_node = e, c_parser = p1\<rparr>)))
       (set_grammar (initialize n_id text) g)"

definition gll_recognize_on :: "nat \<Rightarrow> grammar \<Rightarrow> string \<Rightarrow> symbol \<Rightarrow> (error + gll_result) option" where
  "gll_recognize_on n_id g text start_symbol =
     Option.bind (gll_init n_id g text start_symbol)
       (\<lambda>r. case r of Inl e \<Rightarrow> Some (Inl e) | Inr c \<Rightarrow> gll_loop start_symbol c)"


section \<open>GLL: EnhancedExtractor over the SPPF\<close>

text \<open>
  \<^verbatim>\<open>choose_path\<close>, \<^verbatim>\<open>extract_a_node\<close> (with \<open>gll_extract_packed\<close>, its loop over
  the children of a packed node) and \<^verbatim>\<open>extract_a_tree\<close> of GLL.py. A partial result
  is \<^verbatim>\<open>(key, children)\<close> with key \<^verbatim>\<open>None\<close> or a string. The numeric arguments
  bound the rounds of the loop and the recursion depth.
\<close>

definition gll_choose_path ::
  "'a list \<Rightarrow> choice_node list \<Rightarrow> nat \<Rightarrow> error + ('a option \<times> nat \<times> choice_node list)" where
  "gll_choose_path arr chain pos =
     (if Suc pos < length chain \<and> choice_finished (chain ! Suc pos) then Inr (None, Suc pos, chain)
      else (let chain' = (if Suc pos < length chain then chain
                          else chain @ [\<lparr>chosen = 0, total = length arr\<rparr>]);
                c = chain' ! Suc pos
            in if chosen c < length arr then Inr (Some (arr ! chosen c), Suc pos, chain')
               else Inl IndexError))"

definition node_nid :: "gll \<Rightarrow> sppf_key \<Rightarrow> nat" where
  "node_nid p n = (case map_of (SPPF_nodes p) n of Some nd \<Rightarrow> nid nd | None \<Rightarrow> 0)"

function (sequential) gll_extract_a_node ::
  "nat \<Rightarrow> gll \<Rightarrow> sppf_key \<Rightarrow> nat list \<Rightarrow> choice_node list \<Rightarrow> nat
     \<Rightarrow> error + ((symbol option \<times> tree list) option \<times> nat \<times> choice_node list)"
and gll_extract_packed ::
  "nat \<Rightarrow> gll \<Rightarrow> sppf_key list \<Rightarrow> tree list \<Rightarrow> nat list \<Rightarrow> choice_node list \<Rightarrow> nat
     \<Rightarrow> error + ((symbol option \<times> tree list) option \<times> nat \<times> choice_node list)"
where
  "gll_extract_a_node 0 p forest_node seen chain pos = Inl RecursionError"
| "gll_extract_a_node (Suc d) p forest_node seen chain pos =
     (case node_kind_of p forest_node of
        None \<Rightarrow> Inl (KeyError [])
      | Some Dummy_node \<Rightarrow> Inr (Some (Some [], []), pos, chain)
      | Some Packed_node \<Rightarrow> gll_extract_packed d p (node_children p forest_node) [] seen chain pos
      | Some Intermediate_node \<Rightarrow>
          (if node_children p forest_node = [] then Inr (Some (None, []), pos, chain)
           else (case gll_choose_path (node_children p forest_node) chain pos of
                   Inl e \<Rightarrow> Inl e
                 | Inr (None, new_choices, chain') \<Rightarrow> Inl AssertionError
                 | Inr (Some cur_path, new_choices, chain') \<Rightarrow>
                     if node_nid p cur_path \<in> set seen then Inr (None, new_choices, chain')
                     else (case gll_extract_a_node d p cur_path (node_nid p cur_path # seen) chain'
                                  new_choices of
                             Inl e \<Rightarrow> Inl e
                           | Inr (None, newer, chain'') \<Rightarrow> Inr (None, newer, chain'')
                           | Inr (Some (key, cs), newer, chain'') \<Rightarrow>
                               Inr (Some (None, cs), newer, chain''))))
      | Some Symbol_node \<Rightarrow>
          (let lab = (case fst forest_node of SStr s \<Rightarrow> Some s | _ \<Rightarrow> None) in
           if node_children p forest_node = [] then Inr (Some (lab, []), pos, chain)
           else (case gll_choose_path (node_children p forest_node) chain pos of
                   Inl e \<Rightarrow> Inl e
                 | Inr (None, new_choices, chain') \<Rightarrow> Inr (None, new_choices, chain')
                 | Inr (Some cur_path, new_choices, chain') \<Rightarrow>
                     if node_nid p cur_path \<in> set seen then Inr (None, new_choices, chain')
                     else (case gll_extract_a_node d p cur_path (node_nid p cur_path # seen) chain'
                                  new_choices of
                             Inl e \<Rightarrow> Inl e
                           | Inr (None, newer, chain'') \<Rightarrow> Inr (None, newer, chain'')
                           | Inr (Some (key, cs), newer, chain'') \<Rightarrow>
                               if key \<noteq> None then Inl AssertionError
                               else Inr (Some (lab, cs), newer, chain'')))))"
| "gll_extract_packed d p [] ret seen chain pos = Inr (Some (None, ret), pos, chain)"
| "gll_extract_packed d p (n # ns) ret seen chain pos =
     (case gll_extract_a_node d p n seen chain pos of
        Inl e \<Rightarrow> Inl e
      | Inr (None, new_choices, chain') \<Rightarrow> Inr (None, new_choices, chain')
      | Inr (Some (key, cs), new_choices, chain') \<Rightarrow>
          (case node_kind_of p n of
             Some Symbol_node \<Rightarrow>
               (case key of
                  None \<Rightarrow> Inl AssertionError
                | Some s \<Rightarrow> gll_extract_packed d p ns (ret @ [Node s cs]) seen chain' new_choices)
           | _ \<Rightarrow>
               (if key \<noteq> None then Inl AssertionError
                else gll_extract_packed d p ns (ret @ cs) seen chain' new_choices)))"

  by pat_completeness auto
termination
  by (relation "inv_image (less_than <*lex*> less_than)
        (\<lambda>x. case x of Inl (d, p, forest_node, seen, chain, pos) \<Rightarrow> (d, 0)
                   | Inr (d, p, ns, ret, seen, chain, pos) \<Rightarrow> (d, Suc (length ns)))")
     auto

record gll_extractor =
  gx_forest :: gll_result
  gx_choices :: "choice_node list"

definition GLL_EnhancedExtractor :: "gll_result \<Rightarrow> gll_extractor" where
  "GLL_EnhancedExtractor forest' = \<lparr>gx_forest = forest', gx_choices = [\<lparr>chosen = 0, total = 1\<rparr>]\<rparr>"

fun gll_extract_a_tree :: "nat \<Rightarrow> nat \<Rightarrow> gll_extractor \<Rightarrow> error + (tree option \<times> gll_extractor)" where
  "gll_extract_a_tree 0 d x = Inl RecursionError"
| "gll_extract_a_tree (Suc n) d x =
     (if choice_finished (hd (gx_choices x)) then Inr (None, x)
      else (case gx_forest x of
              NoParse \<Rightarrow> Inl AttributeError
            | Parsed p \<Rightarrow>
                (case root p of
                   None \<Rightarrow> Inl AttributeError
                 | Some r \<Rightarrow>
                     (case gll_extract_a_node d p r [] (gx_choices x) 0 of
                        Inl e \<Rightarrow> Inl e
                      | Inr (parse_tree, pos, chain) \<Rightarrow>
                          (let x' = x\<lparr>gx_choices := increment chain pos\<rparr> in
                           case parse_tree of
                             Some (Some s, cs) \<Rightarrow> Inr (Some (Node s cs), x')
                           | Some (None, cs) \<Rightarrow> Inl AssertionError
                           | None \<Rightarrow> gll_extract_a_tree n d x')))))"


section \<open>Observations of the GLL engine\<close>

text \<open>
  \<^verbatim>\<open>recognize_on\<close> of the compiled parser succeeds when it returns the parser. The
  counter of node ids starts at 0 in a fresh interpreter.
\<close>

definition gll_accepts :: "grammar \<Rightarrow> string \<Rightarrow> symbol \<Rightarrow> bool" where
  "gll_accepts g text start =
     (case gll_recognize_on 0 g text start of Some (Inr (Parsed p)) \<Rightarrow> True | _ \<Rightarrow> False)"

fun gll_extract_n :: "nat \<Rightarrow> gll_extractor \<Rightarrow> error + tree option list" where
  "gll_extract_n 0 x = Inr []"
| "gll_extract_n (Suc n) x =
     (case gll_extract_a_tree 100 100 x of
        Inl e \<Rightarrow> Inl e
      | Inr (t, x') \<Rightarrow> (case gll_extract_n n x' of Inl e \<Rightarrow> Inl e | Inr ts \<Rightarrow> Inr (t # ts)))"

definition gll_extract :: "grammar \<Rightarrow> string \<Rightarrow> symbol \<Rightarrow> nat \<Rightarrow> (error + tree option list) option" where
  "gll_extract g text start n =
     map_option (\<lambda>r. case r of Inl e \<Rightarrow> Inl e | Inr f \<Rightarrow> gll_extract_n n (GLL_EnhancedExtractor f))
       (gll_recognize_on 0 g text start)"

text \<open>
  The invariant of claim C9. The children of a symbol or intermediate node are packed
  nodes; the label \<^verbatim>\<open>(slot, k)\<close> of a packed node is the first component of its key.
  \<open>sppf_inv\<close> says that \<^verbatim>\<open>SPPF_nodes\<close> is a dict (one entry per key) and that no
  node other than a packed node has two children with the same label. \<open>gll_run n\<close> is
  the driver after \<open>n\<close> rounds of its loop.
\<close>

definition sppf_inv :: "(sppf_key \<times> sppf_node) list \<Rightarrow> bool" where
  "sppf_inv ns = (distinct (map fst ns) \<and>
      (\<forall>(n, nd) \<in> set ns. kind nd \<noteq> Packed_node \<longrightarrow> distinct (map fst (children nd))))"

definition packed_unique :: "gll \<Rightarrow> bool" where
  "packed_unique p = sppf_inv (SPPF_nodes p)"

fun gll_run :: "nat \<Rightarrow> symbol \<Rightarrow> config \<Rightarrow> (error + gll_result) + config" where
  "gll_run 0 start_symbol c = Inr c"
| "gll_run (Suc n) start_symbol c =
     (case gll_step start_symbol c of Inl r \<Rightarrow> Inl r | Inr c' \<Rightarrow> gll_run n start_symbol c')"

definition left_c0 :: config where
  "left_c0 = (case gll_init 0 left_grammar ''a'' ''<S>'' of Some (Inr c) \<Rightarrow> c)"

definition left_c9 :: config where
  "left_c9 = (case gll_run 9 ''<S>'' left_c0 of Inr c \<Rightarrow> c)"

section \<open>Properties of the Earley recognizer\<close>

subsection \<open>Column indices\<close>

text \<open>The column at position \<open>j\<close> of the chart has index \<open>j\<close>, before and after filling.\<close>

lemma col_add_index [simp]: "index (col_add col st) = index col"
  by (simp add: col_add_def)

lemma chart_add_index [simp]: "map index (chart_add ch i st) = map index ch"
  by (simp add: chart_add_def map_update list_update_same_conv)

lemma fold_chart_add_index [simp]:
  "map index (fold (\<lambda>x c. chart_add c j (f x)) xs ch) = map index ch"
  by (induction xs arbitrary: ch) simp_all

lemma fill_step_index [simp]: "map index (fill_step g eps ch i st) = map index ch"
  by (simp add: fill_step_def complete_def predict_def scan_def Let_def)

lemma fill_col_index [simp]: "map index (fill_col g eps ch i k) = map index ch"
  by (induction g eps ch i k rule: fill_col.induct) (subst fill_col.simps, simp)

lemma fill_chart_index_aux:
  "map index (fold (\<lambda>i ch. fill_col g eps ch i 0) is ch) = map index ch"
  by (induction "is" arbitrary: ch) simp_all

lemma fill_chart_index [simp]: "map index (fill_chart g eps ch) = map index ch"
  by (simp add: fill_chart_def fill_chart_index_aux)

lemma map_index_enumerate:
  "map index (map (\<lambda>(i, tok). create_column i tok) (enumerate n xs)) = [n..<n + length xs]"
  by (induction xs arbitrary: n) (simp_all add: create_column_def upt_rec)

lemma init_chart_index: "map index (init_chart text) = [0..<Suc (length text)]"
  unfolding init_chart_def by (subst map_index_enumerate) (simp add: tokens_of_def)

lemma chart_parse_index: "map index (chart_parse g eps text start alts) = [0..<Suc (length text)]"
  by (simp add: chart_parse_def init_chart_index del: upt_Suc)


subsection \<open>The prefix parse\<close>

lemma find_prefix_items:
  "find_prefix start alts cols = (cursor, sts) \<Longrightarrow>
   \<forall>st \<in> set sts. name st = start \<and> expr st \<in> set alts \<and> s_col st = 0"
  by (induction cols) (auto simp: start_items_def split: if_splits)

lemma find_prefix_empty:
  "find_prefix start alts cols = (cursor, []) \<Longrightarrow>
   cursor = -1 \<and> (\<forall>col \<in> set cols. start_items start alts col = [])"
  by (induction cols) (auto split: if_splits)

lemma find_prefix_latest:
  "find_prefix start alts cols = (cursor, sts) \<Longrightarrow> sts \<noteq> [] \<Longrightarrow>
   \<exists>n < length cols. cursor = int (index (cols ! n)) \<and> sts = start_items start alts (cols ! n) \<and>
      (\<forall>k < n. start_items start alts (cols ! k) = [])"
proof (induction cols)
  case Nil
  then show ?case by simp
next
  case (Cons col cols)
  show ?case
  proof (cases "start_items start alts col = []")
    case False
    with Cons.prems show ?thesis by (intro exI [of _ 0]) auto
  next
    case True
    with Cons.prems have "find_prefix start alts cols = (cursor, sts)" by simp
    from Cons.IH [OF this Cons.prems(2)] obtain n where n: "n < length cols"
      "cursor = int (index (cols ! n))" "sts = start_items start alts (cols ! n)"
      "\<forall>k < n. start_items start alts (cols ! k) = []" by blast
    show ?thesis
    proof (intro exI [of _ "Suc n"] conjI allI impI)
      fix k assume "k < Suc n"
      with n(4) True show "start_items start alts ((col # cols) ! k) = []"
        by (cases k) auto
    qed (use n in auto)
  qed
qed

lemma ab_parser_built: "EarleyParser ab_grammar True = Inr ab_parser"
  by code_simp

text \<open>
  Claim C4, as stated: every state returned by \<^verbatim>\<open>parse_prefix\<close> is a completed start
  item. For the grammar \<^verbatim>\<open><S> ::= a b\<close> and the text \<^verbatim>\<open>a\<close>, \<^verbatim>\<open>parse_prefix\<close> returns
  the cursor 1 with the single state \<^verbatim>\<open><S> ::= a | b\<close>, which is not finished.
\<close>

theorem parse_prefix_unfinished_counterexample:
  "parse_prefix_view ab_grammar True ''a'' ''<S>'' = Inr (1, [((''<S>'', [''a'', ''b''], 1, 0), False)])"
  by code_simp

text \<open>
  Claim C4, amended: \<^verbatim>\<open>parse_prefix(text, start)\<close> returns a pair
  \<open>(cursor, states)\<close> in which every state is an item of the start symbol (its name is
  the start symbol, its expression one of the start symbol's alternatives, its start
  column 0), completed or not. When the list is not empty, the cursor is the index of the
  last chart column that holds such an item and the list holds exactly the items of that
  column; when no column holds one, the result is \<open>(-1, [])\<close>. \<^verbatim>\<open>recognize_on\<close> keeps
  the completed items and, with \<^verbatim>\<open>parse_exceptions\<close>, signals a syntax error at
  \<^verbatim>\<open>text[cursor:]\<close> when the cursor is before the end of the text or no item is
  completed.
\<close>

theorem parse_prefix_start_items:
  assumes "parse_prefix p text start = Inr (cursor, sts, table)"
  shows "(\<forall>st \<in> set sts. name st = start \<and> expr st \<in> set (alts_of (grammar p) start) \<and> s_col st = 0)
       \<and> (sts = [] \<longrightarrow> cursor = -1 \<and> (\<forall>col \<in> set table. start_items start (alts_of (grammar p) start) col = []))
       \<and> (sts \<noteq> [] \<longrightarrow> 0 \<le> cursor \<and> nat cursor < length table
             \<and> sts = start_items start (alts_of (grammar p) start) (table ! nat cursor)
             \<and> (\<forall>j. nat cursor < j \<and> j < length table
                   \<longrightarrow> start_items start (alts_of (grammar p) start) (table ! j) = []))
       \<and> recognize_on p text start =
           (if parse_exceptions p \<and> (cursor < int (length text) \<or> filter finished sts = [])
            then Inl (SyntaxError (py_slice_from text cursor))
            else Inr (filter finished sts, table))"
proof -
  from assms obtain alts where alts: "map_of (grammar p) start = Some alts"
    and table: "table = chart_parse (grammar p) (epsilon p) text start alts"
    and fp: "find_prefix start alts (rev table) = (cursor, sts)"
    by (auto simp: parse_prefix_def Let_def split: option.splits prod.splits)
  have a: "alts_of (grammar p) start = alts" using alts by (simp add: alts_of_def)
  have idx: "map index table = [0..<Suc (length text)]"
    unfolding table by (rule chart_parse_index)
  then have len: "length table = Suc (length text)"
    by (metis length_map length_upt diff_zero)
  have idx': "\<And>j. j < length table \<Longrightarrow> index (table ! j) = j"
  proof -
    fix j assume j: "j < length table"
    then have "index (table ! j) = map index table ! j" by simp
    also have "\<dots> = j" using j len unfolding idx by (simp del: upt_Suc)
    finally show "index (table ! j) = j" .
  qed
  have 1: "\<forall>st \<in> set sts. name st = start \<and> expr st \<in> set alts \<and> s_col st = 0"
    by (rule find_prefix_items [OF fp])
  have 2: "sts = [] \<longrightarrow> cursor = -1 \<and> (\<forall>col \<in> set table. start_items start alts col = [])"
    using find_prefix_empty [of start alts "rev table" cursor] fp by auto
  have 3: "sts \<noteq> [] \<longrightarrow> 0 \<le> cursor \<and> nat cursor < length table
             \<and> sts = start_items start alts (table ! nat cursor)
             \<and> (\<forall>j. nat cursor < j \<and> j < length table \<longrightarrow> start_items start alts (table ! j) = [])"
  proof
    assume ne: "sts \<noteq> []"
    from find_prefix_latest [OF fp ne] obtain n where n: "n < length table"
      "cursor = int (index (rev table ! n))" "sts = start_items start alts (rev table ! n)"
      "\<forall>k < n. start_items start alts (rev table ! k) = []" by auto
    let ?c = "length table - Suc n"
    have rn: "rev table ! n = table ! ?c" using n(1) by (simp add: rev_nth)
    have c: "?c < length table" using n(1) by simp
    have cur: "cursor = int ?c" using n(2) rn idx' [OF c] by simp
    have later: "\<forall>j. ?c < j \<and> j < length table \<longrightarrow> start_items start alts (table ! j) = []"
    proof (intro allI impI)
      fix j assume j: "?c < j \<and> j < length table"
      let ?k = "length table - Suc j"
      have "?k < n" using j n(1) by arith
      with n(4) have "start_items start alts (rev table ! ?k) = []" by blast
      moreover have "rev table ! ?k = table ! j"
      proof -
        have "?k < length table" using j by arith
        then have "rev table ! ?k = table ! (length table - Suc ?k)" by (rule rev_nth)
        moreover have "length table - Suc ?k = j" using j by arith
        ultimately show ?thesis by simp
      qed
      ultimately show "start_items start alts (table ! j) = []" by simp
    qed
    show "0 \<le> cursor \<and> nat cursor < length table
             \<and> sts = start_items start alts (table ! nat cursor)
             \<and> (\<forall>j. nat cursor < j \<and> j < length table \<longrightarrow> start_items start alts (table ! j) = [])"
      using cur c n(3) rn later by simp
  qed
  have 4: "recognize_on p text start =
           (if parse_exceptions p \<and> (cursor < int (length text) \<or> filter finished sts = [])
            then Inl (SyntaxError (py_slice_from text cursor))
            else Inr (filter finished sts, table))"
    using assms by (simp add: recognize_on_def Let_def)
  from 1 2 3 4 show ?thesis unfolding a by blast
qed

theorem parse_prefix_start_items_witness:
  "parse_prefix ab_parser ''a'' ''<S>'' = Inr (1, ab_items, ab_table) \<and>
   list_all (\<lambda>st. name st = ''<S>'' \<and> expr st \<in> set (alts_of (grammar ab_parser) ''<S>'')
                   \<and> s_col st = 0) ab_items \<and>
   recognize_on ab_parser ''a'' ''<S>'' = Inl (SyntaxError [])"
proof -
  have h: "parse_prefix ab_parser ''a'' ''<S>'' = Inr (1, ab_items, ab_table)"
    by code_simp
  have f: "filter finished ab_items = []"
    by (simp add: ab_items_def finished_def)
  have pe: "parse_exceptions ab_parser" by (simp add: ab_parser_def)
  from parse_prefix_start_items [OF h] h f pe show ?thesis
    by (simp add: list_all_iff py_slice_from_def)
qed

subsection \<open>Parsing without exceptions\<close>

text \<open>
  C10. With \<^verbatim>\<open>parse_exceptions=False\<close> the claim says that \<^verbatim>\<open>recognize_on\<close> returns
  the possibly empty list of finished start items and that \<^verbatim>\<open>parse_on\<close> then yields no
  trees on unparseable input instead of signaling an error. For \<^verbatim>\<open><S> ::= a b\<close> and
  the text \<^verbatim>\<open>a\<close>, \<^verbatim>\<open>recognize_on\<close> returns the empty list and \<^verbatim>\<open>parse_on\<close> ends
  with the AssertionError of \<^verbatim>\<open>parse_forest\<close> (\<^verbatim>\<open>assert len(names) == 1\<close>) without a
  tree. For the text \<^verbatim>\<open>abx\<close>, which is not in the language either,
  \<^verbatim>\<open>recognize_on\<close> returns the finished start item of column 2 and \<^verbatim>\<open>parse_on\<close>
  yields the tree of the prefix \<^verbatim>\<open>ab\<close>.
\<close>

theorem parse_on_quiet_fails:
  "earley_recognize ab_grammar False ''a'' ''<S>'' = Inr [] \<and>
   parse_on_view 10 ab_grammar False ''a'' ''<S>'' = Inr ([], Some AssertionError) \<and>
   earley_recognize ab_grammar False ''abx'' ''<S>'' = Inr [(''<S>'', [''a'', ''b''], 2, 0)] \<and>
   parse_on_view 10 ab_grammar False ''abx'' ''<S>''
     = Inr ([Node ''<S>'' [Node ''a'' [], Node ''b'' []]], None)"
  by code_simp

subsection \<open>The Leo completer\<close>

lemma cyclic_parser_built: "EarleyParser cyclic_grammar True = Inr cyclic_parser"
  by code_simp

lemma cyclic_column0:
  "leo_fill_col cyclic_grammar [] cyclic_seed 0 0 = Some (Inr \<lparr>l_chart = cyclic_chart, postdots = []\<rparr>)"
  by code_simp

lemma cyclic_seed_columns: "[0..<length (l_chart cyclic_seed)] = [0, 1]"
  by code_simp

lemma uniq_postdot_cyc_a:
  "l_chart ls = cyclic_chart \<Longrightarrow> \<exists>ls'. uniq_postdot ls cyc_a = (Some (\<lparr>name = ''<B>'', expr = [''<A>''], dot = 0, s_col = 0, e_col = Some 0, tstate = False\<rparr>), ls') \<and> l_chart ls' = cyclic_chart"
  by (simp add: uniq_postdot_def cyclic_chart_def cyc_a_def col_states_def at_dot_def Let_def)

lemma uniq_postdot_cyc_A:
  "l_chart ls = cyclic_chart \<Longrightarrow> \<exists>ls'. uniq_postdot ls cyc_A = (Some (\<lparr>name = ''<B>'', expr = [''<A>''], dot = 0, s_col = 0, e_col = Some 0, tstate = False\<rparr>), ls') \<and> l_chart ls' = cyclic_chart"
  by (simp add: uniq_postdot_def cyclic_chart_def cyc_A_def col_states_def at_dot_def Let_def)

lemma uniq_postdot_cyc_B:
  "l_chart ls = cyclic_chart \<Longrightarrow> \<exists>ls'. uniq_postdot ls cyc_B = (Some (\<lparr>name = ''<A>'', expr = [''<B>''], dot = 0, s_col = 0, e_col = Some 0, tstate = False\<rparr>), ls') \<and> l_chart ls' = cyclic_chart"
  by (simp add: uniq_postdot_def cyclic_chart_def cyc_B_def col_states_def at_dot_def Let_def)

lemma no_transitives: "col_transitives cyclic_chart 0 = []"
  by (simp add: col_transitives_def cyclic_chart_def)

lemma get_top_cycle_aux:
  assumes "get_top ls st = Some y"
  shows "\<not> (l_chart ls = cyclic_chart \<and> (st = cyc_A \<or> st = cyc_B))"
  using assms
proof (rule get_top.raw_induct [rotated])
  fix get_top' :: "leo \<Rightarrow> state \<Rightarrow> (error + (state option \<times> leo)) option" and ls st y
  assume IH: "\<And>ls st y. get_top' ls st = Some y \<Longrightarrow>
                \<not> (l_chart ls = cyclic_chart \<and> (st = cyc_A \<or> st = cyc_B))"
  assume body: "(case uniq_postdot ls st of (None, ls1) \<Rightarrow> Some (Inr (None, ls1))
      | (Some st_B_inc, ls1) \<Rightarrow>
          (case e_col st_B_inc of None \<Rightarrow> Some (Inl AttributeError)
           | Some e \<Rightarrow>
              (case map_of (col_transitives (l_chart ls1) e) (name st_B_inc) of
                 None \<Rightarrow>
                   Option.bind (get_top' ls1 (advance st_B_inc))
                    (\<lambda>r. case r of Inl err \<Rightarrow> Some (Inl err)
                         | Inr (top_opt, ls2) \<Rightarrow>
                             Some (add_transitive ls2 e (name st_B_inc)
                                (case top_opt of None \<Rightarrow> advance st_B_inc | Some t \<Rightarrow> t)))
               | Some t \<Rightarrow> Some (Inr (Some t, ls1))))) = Some y"
  show "\<not> (l_chart ls = cyclic_chart \<and> (st = cyc_A \<or> st = cyc_B))"
  proof
    assume a: "l_chart ls = cyclic_chart \<and> (st = cyc_A \<or> st = cyc_B)"
    then have ch: "l_chart ls = cyclic_chart" by simp
    from a consider "st = cyc_A" | "st = cyc_B" by blast
    then show False
    proof cases
      case 1
      from uniq_postdot_cyc_A [OF ch] obtain ls' where
        u: "uniq_postdot ls cyc_A = (Some (\<lparr>name = ''<B>'', expr = [''<A>''], dot = 0, s_col = 0, e_col = Some 0, tstate = False\<rparr>), ls')"
        and ch': "l_chart ls' = cyclic_chart" by blast
      have adv: "advance \<lparr>name = ''<B>'', expr = [''<A>''], dot = 0, s_col = 0, e_col = Some 0, tstate = False\<rparr> = cyc_B"
        by (simp add: advance_def cyc_B_def)
      from body 1 u ch' obtain r where "get_top' ls' cyc_B = Some r"
        by (auto simp: no_transitives adv split: Option.bind_splits)
      from IH [OF this] ch' show False by simp
    next
      case 2
      from uniq_postdot_cyc_B [OF ch] obtain ls' where
        u: "uniq_postdot ls cyc_B = (Some (\<lparr>name = ''<A>'', expr = [''<B>''], dot = 0, s_col = 0, e_col = Some 0, tstate = False\<rparr>), ls')"
        and ch': "l_chart ls' = cyclic_chart" by blast
      have adv: "advance \<lparr>name = ''<A>'', expr = [''<B>''], dot = 0, s_col = 0, e_col = Some 0, tstate = False\<rparr> = cyc_A"
        by (simp add: advance_def cyc_A_def)
      from body 2 u ch' obtain r where "get_top' ls' cyc_A = Some r"
        by (auto simp: no_transitives adv split: Option.bind_splits)
      from IH [OF this] ch' show False by simp
    qed
  qed
qed

lemma get_top_cycle: "l_chart ls = cyclic_chart \<Longrightarrow> get_top ls cyc_B = None"
  using get_top_cycle_aux [of ls cyc_B] by (cases "get_top ls cyc_B") auto

lemma get_top_cyc_a: "get_top \<lparr>l_chart = cyclic_chart, postdots = []\<rparr> cyc_a = None"
proof -
  let ?ls = "\<lparr>l_chart = cyclic_chart, postdots = []\<rparr>"
  from uniq_postdot_cyc_a [of ?ls] obtain ls' where
    u: "uniq_postdot ?ls cyc_a = (Some (\<lparr>name = ''<B>'', expr = [''<A>''], dot = 0, s_col = 0, e_col = Some 0, tstate = False\<rparr>), ls')"
    and ch': "l_chart ls' = cyclic_chart" by auto
  have adv: "advance \<lparr>name = ''<B>'', expr = [''<A>''], dot = 0, s_col = 0, e_col = Some 0, tstate = False\<rparr> = cyc_B"
    by (simp add: advance_def cyc_B_def)
  show ?thesis
    by (subst get_top.simps) (simp add: u ch' no_transitives adv get_top_cycle)
qed

text \<open>
  Claim C3: for a grammar with a cyclic unit production, recognition by each engine
  terminates. With the grammar \<^verbatim>\<open><A> ::= <B> | a\<close>, \<^verbatim>\<open><B> ::= <A>\<close> and the text
  \<^verbatim>\<open>a\<close>, recognition by \<^verbatim>\<open>LeoParser\<close> does not return: completing \<^verbatim>\<open><A> ::= a |\<close>
  in column 1, \<^verbatim>\<open>get_top\<close> calls itself on \<^verbatim>\<open><B> ::= <A> |\<close>, then on
  \<^verbatim>\<open><A> ::= <B> |\<close>, then on \<^verbatim>\<open><B> ::= <A> |\<close> again, and never reaches
  \<^verbatim>\<open>add_transitive\<close>.
\<close>

theorem leo_cyclic_diverges: "leo_recognize_on cyclic_parser ''a'' ''<A>'' = None"
proof -
  let ?ls = "\<lparr>l_chart = cyclic_chart, postdots = []\<rparr>"
  have st: "col_states cyclic_chart (Suc 0) ! 0 = cyc_a" "col_states cyclic_chart (Suc 0) \<noteq> []"
    by (simp_all add: col_states_def cyclic_chart_def cyc_a_def)
  have fin: "finished cyc_a" by (simp add: finished_def cyc_a_def)
  have "leo_fill_col cyclic_grammar [] ?ls 1 0 = None"
    by (subst leo_fill_col.simps) (simp add: st fin leo_fill_step_def leo_complete_def get_top_cyc_a)
  then have "leo_fill_cols cyclic_grammar [] [0, 1] cyclic_seed = None"
    by (simp add: cyclic_column0)
  then have "leo_fill_chart cyclic_grammar [] cyclic_seed = None"
    by (simp only: leo_fill_chart_def cyclic_seed_columns)
  moreover have "leo_chart_parse cyclic_grammar [] ''a'' ''<A>'' [[''<B>''], [''a'']]
                   = leo_fill_chart cyclic_grammar [] cyclic_seed"
    by (simp only: leo_chart_parse_def cyclic_seed_def)
  ultimately have "leo_chart_parse cyclic_grammar [] ''a'' ''<A>'' [[''<B>''], [''a'']] = None"
    by simp
  then show ?thesis
    by (simp add: leo_recognize_on_def leo_parse_prefix_def cyclic_parser_def cyclic_grammar_def)
qed


text \<open>
  Claim C6: when column \<open>s\<close> holds exactly one item with the dot before \<open>A\<close>, and that
  item's dot is at the last position, a copy of the topmost item of the deterministic
  reduction chain is added and standard completion is skipped. With \<open>memo_grammar\<close> and
  the text \<^verbatim>\<open>aax\<close>, \<^verbatim>\<open><C> ::= a a |\<close> is completed in column 2; column 0 holds
  exactly one item with the dot before \<^verbatim>\<open><C>\<close>, namely \<^verbatim>\<open><B> ::= | <C>\<close>, but the
  item added to column 2 is \<^verbatim>\<open><B> ::= <A> |\<close>, the memo stored under the name
  \<^verbatim>\<open><B>\<close> when \<^verbatim>\<open><A> ::= a |\<close> was completed in column 1; the plain completer adds
  \<^verbatim>\<open><B> ::= <C> |\<close>. With \<open>assert_grammar\<close> and the text \<^verbatim>\<open>xa\<close>, which the plain
  parser accepts, the assertion of \<^verbatim>\<open>add_transitive\<close> fails.
\<close>

theorem leo_memo_wrong_item:
  "leo_column memo_grammar ''aax'' ''<S>'' 2 =
     Some (Inr [((''<C>'', [''a'', ''a''], 2, 0), False), ((''<B>'', [''<A>''], 1, 0), True),
                ((''<S>'', [''<B>'', ''x''], 1, 0), False), ((''<S>'', [''<B>'', ''y''], 1, 0), False)])
   \<and> earley_column memo_grammar ''aax'' ''<S>'' 2 =
     Inr [((''<C>'', [''a'', ''a''], 2, 0), False), ((''<B>'', [''<C>''], 1, 0), False),
          ((''<S>'', [''<B>'', ''x''], 1, 0), False), ((''<S>'', [''<B>'', ''y''], 1, 0), False)]
   \<and> leo_recognize assert_grammar ''xa'' ''<B>'' = Some (Inl AssertionError)
   \<and> earley_recognize assert_grammar True ''xa'' ''<B>'' = Inr [(''<B>'', [''x'', ''<Y>''], 2, 0)]"
  by code_simp

subsection \<open>The nullable set\<close>

text \<open>
  On a grammar of the spec, \<^verbatim>\<open>nullable(g)\<close> returns exactly the keys that derive the
  empty string.
\<close>

lemma strip_alts_found:
  "snd (strip_alts nxt alts) \<longleftrightarrow> (\<exists>alt \<in> set alts. filter (\<lambda>t. t \<noteq> nxt) alt = [])"
  by (induction alts) (auto simp: Let_def split: prod.splits)

lemma strip_alts_not_found:
  "\<not> snd (strip_alts nxt alts) \<Longrightarrow> fst (strip_alts nxt alts) = map (filter (\<lambda>t. t \<noteq> nxt)) alts"
  by (induction alts) (auto simp: Let_def split: prod.splits if_splits)

lemma strip_alts_subset:
  "set (fst (strip_alts nxt alts)) \<subseteq> filter (\<lambda>t. t \<noteq> nxt) ` set alts - {[]}"
  by (induction alts) (auto simp: Let_def split: prod.splits if_splits)

lemma nullable_pass_closed:
  "nullable_pass nxt gs (nk, un, gn) = (nk', un', gn') \<Longrightarrow>
   set nk' = set nk \<union> set (pass_found nxt gs) \<and> un' = un @ pass_found nxt gs \<and>
   gn' = gn @ pass_next nxt gs"
proof (induction gs arbitrary: nk un gn)
  case Nil
  then show ?case by (simp add: pass_found_def pass_next_def)
next
  case (Cons a gs)
  obtain k alts where a: "a = (k, alts)" by (cases a)
  obtain r b where s: "strip_alts nxt alts = (r, b)" by (cases "strip_alts nxt alts")
  from Cons.prems a s
  have "nullable_pass nxt gs
          (if b then List.insert k nk else nk, if b then un @ [k] else un,
           if r \<noteq> [] then gn @ [(k, r)] else gn) = (nk', un', gn')"
    by (simp add: Let_def)
  from Cons.IH [OF this] a s show ?case
    by (auto simp: pass_found_def pass_next_def)
qed

lemma pass_found_iff:
  "k \<in> set (pass_found nxt gc) \<longleftrightarrow> (\<exists>alts. (k, alts) \<in> set gc \<and> snd (strip_alts nxt alts))"
  by (force simp: pass_found_def)

lemma pass_next_iff:
  "(k, r) \<in> set (pass_next nxt gc) \<longleftrightarrow>
     (\<exists>alts. (k, alts) \<in> set gc \<and> r = fst (strip_alts nxt alts) \<and> r \<noteq> [])"
  by (force simp: pass_next_def)

lemma filter_empty_subset: "filter (\<lambda>t. t \<noteq> nxt) alt = [] \<Longrightarrow> set alt \<subseteq> {nxt}"
  by (auto simp: filter_empty_conv)

lemma derives_empty_alt:
  assumes "alt \<in> set (alts_of g k)" "\<forall>s \<in> set alt. derives_empty g s"
  shows "derives_empty g k"
proof (cases "map_of g k")
  case None
  with assms(1) show ?thesis by (simp add: alts_of_def)
next
  case (Some alts)
  with assms(1) have "alt \<in> set alts" by (simp add: alts_of_def)
  from derives_empty.intros [OF Some this assms(2)] show ?thesis .
qed

lemma null_inv_step:
  assumes inv: "null_inv g N (nxt # un) gc"
  shows "null_inv g (N \<union> set (pass_found nxt gc)) (un @ pass_found nxt gc) (pass_next nxt gc)"
proof -
  let ?F = "set (pass_found nxt gc)"
  let ?N = "N \<union> ?F"
  from inv have nxt: "nxt \<in> N" and un: "set un \<subseteq> N"
    and snd: "\<forall>k \<in> N. derives_empty g k"
    by (auto simp: null_inv_def)
  from inv have gc: "\<And>k alts' alt'. (k, alts') \<in> set gc \<Longrightarrow> alt' \<in> set alts' \<Longrightarrow>
        (\<exists>alt \<in> set (alts_of g k). set alt' \<subseteq> set alt \<and> set alt - set alt' \<subseteq> N)
        \<and> (\<forall>s \<in> set alt'. s \<in> N \<longrightarrow> s \<in> set (nxt # un))"
    unfolding null_inv_def by fast
  from inv have cmp: "\<And>k alt. alt \<in> set (alts_of g k) \<Longrightarrow> \<forall>t \<in> set alt. is_nt t \<Longrightarrow>
        k \<in> N \<or> (\<exists>alts' alt'. (k, alts') \<in> set gc \<and> alt' \<in> set alts' \<and> alt' \<noteq> [] \<and> set alt' \<subseteq> set alt)"
    unfolding null_inv_def by blast
  have c1: "set (un @ pass_found nxt gc) \<subseteq> ?N" using un by auto
  have c3: "\<forall>k \<in> ?N. derives_empty g k"
  proof
    fix k assume "k \<in> ?N"
    then show "derives_empty g k"
    proof
      assume "k \<in> N" with snd show ?thesis by blast
    next
      assume "k \<in> ?F"
      then obtain alts where a: "(k, alts) \<in> set gc" "snd (strip_alts nxt alts)"
        by (auto simp: pass_found_iff)
      then obtain alt' where b: "alt' \<in> set alts" "filter (\<lambda>t. t \<noteq> nxt) alt' = []"
        by (auto simp: strip_alts_found)
      from gc [OF a(1) b(1)] obtain alt where c: "alt \<in> set (alts_of g k)" "set alt - set alt' \<subseteq> N"
        by blast
      from filter_empty_subset [OF b(2)] c(2) nxt have "set alt \<subseteq> N" by auto
      with snd have "\<forall>s \<in> set alt. derives_empty g s" by blast
      from derives_empty_alt [OF c(1) this] show ?thesis .
    qed
  qed
  have c4: "\<forall>(k, alts') \<in> set (pass_next nxt gc).
            (\<forall>alt' \<in> set alts'.
               (\<exists>alt \<in> set (alts_of g k). set alt' \<subseteq> set alt \<and> set alt - set alt' \<subseteq> ?N)
               \<and> (\<forall>s \<in> set alt'. s \<in> ?N \<longrightarrow> s \<in> set (un @ pass_found nxt gc)))"
  proof (clarify, intro conjI ballI impI)
    fix k r alt2 assume m: "(k, r) \<in> set (pass_next nxt gc)" and a2: "alt2 \<in> set r"
    from m obtain alts where a: "(k, alts) \<in> set gc" "r = fst (strip_alts nxt alts)"
      by (auto simp: pass_next_iff)
    with a2 strip_alts_subset [of nxt alts] obtain alt' where
      b: "alt' \<in> set alts" "alt2 = filter (\<lambda>t. t \<noteq> nxt) alt'" by auto
    from gc [OF a(1) b(1)] obtain alt where c: "alt \<in> set (alts_of g k)" "set alt' \<subseteq> set alt"
      "set alt - set alt' \<subseteq> N" and d: "\<forall>s \<in> set alt'. s \<in> N \<longrightarrow> s \<in> set (nxt # un)"
      by blast
    have "set alt2 \<subseteq> set alt" using b(2) c(2) by auto
    moreover have "set alt - set alt2 \<subseteq> ?N" using b(2) c(3) nxt by auto
    ultimately show "\<exists>alt \<in> set (alts_of g k). set alt2 \<subseteq> set alt \<and> set alt - set alt2 \<subseteq> ?N"
      using c(1) by blast
    fix s assume s: "s \<in> set alt2" "s \<in> ?N"
    from s(1) b(2) have s': "s \<in> set alt'" "s \<noteq> nxt" by auto
    from s(2) show "s \<in> set (un @ pass_found nxt gc)"
    proof
      assume "s \<in> N" with d s' show ?thesis by auto
    next
      assume "s \<in> ?F" then show ?thesis by simp
    qed
  qed
  have c5: "\<forall>k alt. alt \<in> set (alts_of g k) \<and> (\<forall>t \<in> set alt. is_nt t) \<longrightarrow>
            k \<in> ?N \<or> (\<exists>alts' alt'. (k, alts') \<in> set (pass_next nxt gc) \<and> alt' \<in> set alts' \<and> alt' \<noteq> []
                          \<and> set alt' \<subseteq> set alt)"
  proof (intro allI impI)
    fix k alt assume h: "alt \<in> set (alts_of g k) \<and> (\<forall>t \<in> set alt. is_nt t)"
    with cmp [of alt k] consider "k \<in> N"
      | alts' alt' where "(k, alts') \<in> set gc" "alt' \<in> set alts'" "alt' \<noteq> []" "set alt' \<subseteq> set alt"
      by blast
    then show "k \<in> ?N \<or> (\<exists>alts' alt'. (k, alts') \<in> set (pass_next nxt gc) \<and> alt' \<in> set alts' \<and> alt' \<noteq> []
                          \<and> set alt' \<subseteq> set alt)"
    proof cases
      case 1
      then show ?thesis by simp
    next
      case 2
      show ?thesis
      proof (cases "snd (strip_alts nxt alts')")
        case True
        with 2(1) have "k \<in> ?F" by (auto simp: pass_found_iff)
        then show ?thesis by simp
      next
        case False
        let ?r = "fst (strip_alts nxt alts')"
        let ?a = "filter (\<lambda>t. t \<noteq> nxt) alt'"
        from strip_alts_not_found [OF False] have r: "?r = map (filter (\<lambda>t. t \<noteq> nxt)) alts'" .
        with 2(2) have in_r: "?a \<in> set ?r" by auto
        from False 2(2) have ne: "?a \<noteq> []" by (auto simp: strip_alts_found)
        from in_r have "?r \<noteq> []" by auto
        with 2(1) have "(k, ?r) \<in> set (pass_next nxt gc)" by (auto simp: pass_next_iff)
        moreover have "set ?a \<subseteq> set alt" using 2(4) by auto
        ultimately show ?thesis using in_r ne by blast
      qed
    qed
  qed
  from c1 c3 c4 c5 show ?thesis unfolding null_inv_def by blast
qed

lemma nullable_loop_inv:
  "null_inv g (set nk) un gc \<Longrightarrow> \<exists>gc'. null_inv g (set (nullable_loop nk un gc)) [] gc'"
proof (induction nk un gc rule: nullable_loop.induct)
  case (1 nk gc)
  then show ?case by auto
next
  case (2 nk nxt un gc)
  obtain nk' un' gn' where p: "nullable_pass nxt gc (nk, un, []) = (nk', un', gn')"
    by (cases "nullable_pass nxt gc (nk, un, [])") auto
  from nullable_pass_closed [OF p] have e: "set nk' = set nk \<union> set (pass_found nxt gc)"
    "un' = un @ pass_found nxt gc" "gn' = pass_next nxt gc" by auto
  from null_inv_step [OF "2.prems"] e have "null_inv g (set nk') un' gn'" by simp
  from "2.IH" [OF p [symmetric] refl this] p show ?case by simp
qed

lemma wf_grammar_keys: "wf_grammar g \<Longrightarrow> (k, alts) \<in> set g \<Longrightarrow> is_nt k"
  by (auto simp: wf_grammar_def list_all_iff)

lemma wf_grammar_map_of: "wf_grammar g \<Longrightarrow> (k, alts) \<in> set g \<Longrightarrow> map_of g k = Some alts"
  by (simp add: wf_grammar_def)

lemma wf_grammar_no_empty: "wf_grammar g \<Longrightarrow> \<not> has_empty_symbol g"
  by (auto simp: wf_grammar_def has_empty_symbol_def list_all_iff)

lemma alts_of_iff: "alt \<in> set (alts_of g k) \<longleftrightarrow> (\<exists>alts. map_of g k = Some alts \<and> alt \<in> set alts)"
  by (cases "map_of g k") (auto simp: alts_of_def)

lemma rem_terminals_iff:
  "(k, r) \<in> set (rem_terminals g) \<longleftrightarrow>
     (\<exists>alts. (k, alts) \<in> set g \<and> r = filter (\<lambda>alt. filter (\<lambda>t. \<not> is_nt t) alt = []) alts \<and> r \<noteq> [])"
  by (force simp: rem_terminals_def)

lemma derives_empty_key: "derives_empty g k \<Longrightarrow> k \<in> fst ` set g"
  by (erule derives_empty.cases) (auto dest!: map_of_SomeD intro: rev_image_eqI)

lemma null_inv_init:
  assumes wf: "wf_grammar g"
  defines "N0 \<equiv> remdups (map fst (filter (\<lambda>(k, alts). [] \<in> set alts) g))"
  shows "null_inv g (set N0) N0 (rem_terminals g)"
proof -
  have N0: "\<And>k. k \<in> set N0 \<longleftrightarrow> (\<exists>alts. (k, alts) \<in> set g \<and> [] \<in> set alts)"
    by (force simp: N0_def)
  have c3: "\<forall>k \<in> set N0. derives_empty g k"
  proof
    fix k assume "k \<in> set N0"
    then obtain alts where a: "(k, alts) \<in> set g" "[] \<in> set alts" by (auto simp: N0)
    from wf_grammar_map_of [OF wf a(1)] a(2) have "[] \<in> set (alts_of g k)" by (simp add: alts_of_def)
    from derives_empty_alt [OF this] show "derives_empty g k" by simp
  qed
  have c4: "\<forall>(k, alts') \<in> set (rem_terminals g).
            (\<forall>alt' \<in> set alts'.
               (\<exists>alt \<in> set (alts_of g k). set alt' \<subseteq> set alt \<and> set alt - set alt' \<subseteq> set N0)
               \<and> (\<forall>s \<in> set alt'. s \<in> set N0 \<longrightarrow> s \<in> set N0))"
  proof (clarify, intro conjI ballI impI)
    fix k r alt' assume m: "(k, r) \<in> set (rem_terminals g)" and a: "alt' \<in> set r"
    from m obtain alts where b: "(k, alts) \<in> set g"
      "r = filter (\<lambda>alt. filter (\<lambda>t. \<not> is_nt t) alt = []) alts" by (auto simp: rem_terminals_iff)
    from wf_grammar_map_of [OF wf b(1)] a b(2) have "alt' \<in> set (alts_of g k)"
      by (simp add: alts_of_def)
    then show "\<exists>alt \<in> set (alts_of g k). set alt' \<subseteq> set alt \<and> set alt - set alt' \<subseteq> set N0"
      by (intro bexI [of _ alt']) auto
  qed simp
  have c5: "\<forall>k alt. alt \<in> set (alts_of g k) \<and> (\<forall>t \<in> set alt. is_nt t) \<longrightarrow>
            k \<in> set N0 \<or> (\<exists>alts' alt'. (k, alts') \<in> set (rem_terminals g) \<and> alt' \<in> set alts' \<and> alt' \<noteq> []
                          \<and> set alt' \<subseteq> set alt)"
  proof (intro allI impI)
    fix k alt assume h: "alt \<in> set (alts_of g k) \<and> (\<forall>t \<in> set alt. is_nt t)"
    then obtain alts where a: "map_of g k = Some alts" "alt \<in> set alts" by (auto simp: alts_of_iff)
    from a(1) have g: "(k, alts) \<in> set g" by (rule map_of_SomeD)
    show "k \<in> set N0 \<or> (\<exists>alts' alt'. (k, alts') \<in> set (rem_terminals g) \<and> alt' \<in> set alts' \<and> alt' \<noteq> []
                          \<and> set alt' \<subseteq> set alt)"
    proof (cases "alt = []")
      case True
      with g a(2) have "k \<in> set N0" by (auto simp: N0)
      then show ?thesis by simp
    next
      case False
      let ?r = "filter (\<lambda>alt. filter (\<lambda>t. \<not> is_nt t) alt = []) alts"
      from h have "filter (\<lambda>t. \<not> is_nt t) alt = []" by (auto simp: filter_empty_conv)
      with a(2) have in_r: "alt \<in> set ?r" by simp
      then have "?r \<noteq> []" by (cases ?r) simp_all
      with g have "(k, ?r) \<in> set (rem_terminals g)" by (auto simp: rem_terminals_iff)
      with in_r False show ?thesis by blast
    qed
  qed
  from c3 c4 c5 show ?thesis unfolding null_inv_def by blast
qed

lemma nullable_wf:
  assumes "wf_grammar g"
  shows "\<exists>eps. nullable g = Inr eps \<and> set eps = {k. derives_empty g k}"
proof -
  let ?N0 = "remdups (map fst (filter (\<lambda>(k, alts). [] \<in> set alts) g))"
  let ?N = "nullable_loop ?N0 ?N0 (rem_terminals g)"
  from wf_grammar_no_empty [OF assms] have n: "nullable g = Inr ?N"
    by (simp add: nullable_def Let_def)
  from nullable_loop_inv [OF null_inv_init [OF assms]]
  obtain gc where inv: "null_inv g (set ?N) [] gc" by blast
  then have snd: "\<forall>k \<in> set ?N. derives_empty g k" by (simp add: null_inv_def)
  from inv have gc: "\<And>k alts' alt' s. (k, alts') \<in> set gc \<Longrightarrow> alt' \<in> set alts' \<Longrightarrow>
        s \<in> set alt' \<Longrightarrow> s \<notin> set ?N"
    unfolding null_inv_def by fastforce
  from inv have cmp: "\<And>k alt. alt \<in> set (alts_of g k) \<Longrightarrow> \<forall>t \<in> set alt. is_nt t \<Longrightarrow>
        k \<in> set ?N \<or> (\<exists>alts' alt'. (k, alts') \<in> set gc \<and> alt' \<in> set alts' \<and> alt' \<noteq> [] \<and> set alt' \<subseteq> set alt)"
    unfolding null_inv_def by blast
  have "k \<in> set ?N" if "derives_empty g k" for k
    using that
  proof (induction rule: derives_empty.induct)
    case (1 k alts alt)
    have alt: "alt \<in> set (alts_of g k)" using 1(1,2) by (simp add: alts_of_def)
    have nt: "\<forall>t \<in> set alt. is_nt t"
    proof
      fix t assume "t \<in> set alt"
      with 1(3) have "derives_empty g t" by blast
      from derives_empty_key [OF this] wf_grammar_keys [OF assms] show "is_nt t" by auto
    qed
    from cmp [OF alt nt] show ?case
    proof
      assume "\<exists>alts' alt'. (k, alts') \<in> set gc \<and> alt' \<in> set alts' \<and> alt' \<noteq> [] \<and> set alt' \<subseteq> set alt"
      then obtain alts' alt' where t: "(k, alts') \<in> set gc" "alt' \<in> set alts'" "alt' \<noteq> []"
        "set alt' \<subseteq> set alt" by blast
      from t(3) obtain s where s: "s \<in> set alt'" by (cases alt') auto
      with t(4) 1(3) have "s \<in> set ?N" by blast
      with gc [OF t(1,2) s] show ?thesis by simp
    qed
  qed
  with snd n show ?thesis by blast
qed


subsection \<open>The empty input\<close>

lemma chart_add_length [simp]: "length (chart_add ch i st) = length ch"
  by (simp add: chart_add_def)

lemma fold_chart_add_length [simp]:
  "length (fold (\<lambda>x c. chart_add c j (f x)) xs ch) = length ch"
  by (induction xs arbitrary: ch) simp_all

lemma fill_step_length [simp]: "length (fill_step g eps ch i st) = length ch"
  by (simp add: fill_step_def complete_def predict_def scan_def Let_def)

lemma fill_col_length [simp]: "length (fill_col g eps ch i k) = length ch"
  by (induction g eps ch i k rule: fill_col.induct) (subst fill_col.simps, simp)

lemma chart_all_col_states: "chart_all P ch \<Longrightarrow> st \<in> set (col_states ch i) \<Longrightarrow> P st"
  by (auto simp: chart_all_def col_states_def split: if_splits)

lemma chart_add_all:
  assumes "chart_all P ch" "\<And>x. P (st\<lparr>e_col := x\<rparr>)"
  shows "chart_all P (chart_add ch i st)"
proof (cases "i < length ch")
  case False
  with assms(1) show ?thesis by (simp add: chart_add_def)
next
  case True
  then have m: "ch ! i \<in> set ch" by simp
  show ?thesis
    unfolding chart_all_def
  proof (intro ballI)
    fix c s assume c: "c \<in> set (chart_add ch i st)" and s: "s \<in> set (states c)"
    from c True have "c = col_add (ch ! i) st \<or> c \<in> set ch"
      by (auto simp: chart_add_def dest: set_update_subset_insert [THEN subsetD])
    then show "P s"
    proof
      assume "c \<in> set ch" with s assms(1) show ?thesis by (auto simp: chart_all_def)
    next
      assume "c = col_add (ch ! i) st"
      with s have "s \<in> set (states (ch ! i)) \<or> s = st\<lparr>e_col := Some (index (ch ! i))\<rparr>"
        by (auto simp: col_add_def split: if_splits)
      with m assms show ?thesis by (auto simp: chart_all_def)
    qed
  qed
qed

lemma fold_chart_add_all:
  assumes "chart_all P ch" "\<And>x y. x \<in> set xs \<Longrightarrow> P ((f x)\<lparr>e_col := y\<rparr>)"
  shows "chart_all P (fold (\<lambda>x c. chart_add c j (f x)) xs ch)"
  using assms
proof (induction xs arbitrary: ch)
  case Nil
  then show ?case by simp
next
  case (Cons x xs)
  have "chart_all P (chart_add ch j (f x))"
    by (rule chart_add_all [OF Cons.prems(1)]) (simp add: Cons.prems(2))
  from Cons.IH [OF this] Cons.prems(2) show ?case by simp
qed

lemma col0_item_e_col [simp]: "col0_item g (st\<lparr>e_col := x\<rparr>) = col0_item g st"
  by (simp add: col0_item_def)

lemma col0_item_create: "alt \<in> set (alts_of g symb) \<Longrightarrow> col0_item g (create_state symb alt 0 0)"
  by (simp add: col0_item_def create_state_def)

lemma col0_item_advance:
  assumes "col0_item g p" "dot p < length (expr p)" "derives_empty g (expr p ! dot p)"
  shows "col0_item g (advance p)"
  using assms by (auto simp: col0_item_def advance_def take_Suc_conv_app_nth)

lemma col0_item_finished:
  assumes "col0_item g st" "finished st"
  shows "derives_empty g (name st)"
proof -
  from assms have "expr st \<in> set (alts_of g (name st))" "\<forall>s \<in> set (expr st). derives_empty g s"
    by (auto simp: col0_item_def finished_def)
  then show ?thesis by (rule derives_empty_alt)
qed

lemma fill_step_col0:
  assumes len: "length ch = 1" and eps: "set eps = {k. derives_empty g k}"
    and ch: "chart_all (col0_item g) ch" and st: "col0_item g st"
  shows "chart_all (col0_item g) (fill_step g eps ch 0 st)"
proof (cases "finished st")
  case True
  have "chart_all (col0_item g) (complete ch 0 st)"
    unfolding complete_def
  proof (rule fold_chart_add_all [OF ch])
    fix p y assume "p \<in> set (filter (\<lambda>p. at_dot p = Some (name st)) (col_states ch (s_col st)))"
    then have p: "p \<in> set (col_states ch (s_col st))" and d: "dot p < length (expr p)"
      "expr p ! dot p = name st"
      by (auto simp: at_dot_def split: if_splits)
    from chart_all_col_states [OF ch p] have "col0_item g p" .
    from col0_item_advance [OF this d(1)] d(2) col0_item_finished [OF st True]
    show "col0_item g ((advance p)\<lparr>e_col := y\<rparr>)" by simp
  qed
  with True show ?thesis by (simp add: fill_step_def)
next
  case False
  then have d: "dot st < length (expr st)" by (simp add: finished_def)
  let ?symb = "expr st ! dot st"
  let ?ch' = "fold (\<lambda>alt c. chart_add c 0 (create_state ?symb alt 0 0)) (alts_of g ?symb) ch"
  have 1: "chart_all (col0_item g) ?ch'"
    by (rule fold_chart_add_all [OF ch]) (simp add: col0_item_create)
  have 2: "chart_all (col0_item g) (chart_add ?ch' 0 (advance st))" if "?symb \<in> set eps"
  proof (rule chart_add_all [OF 1])
    fix x
    from that eps have "derives_empty g ?symb" by auto
    from col0_item_advance [OF st d this] show "col0_item g ((advance st)\<lparr>e_col := x\<rparr>)" by simp
  qed
  from False len ch 1 2 show ?thesis
    by (simp add: fill_step_def predict_def Let_def)
qed

lemma fill_col_col0:
  assumes "i = 0" "length ch = 1" "set eps = {k. derives_empty g k}" "chart_all (col0_item g) ch"
  shows "chart_all (col0_item g) (fill_col g eps ch i k)"
  using assms
proof (induction g eps ch i k rule: fill_col.induct)
  case (1 g eps ch i k)
  show ?case
  proof (cases "k < length (col_states ch i)")
    case False
    with 1(5) show ?thesis by (subst fill_col.simps) simp
  next
    case True
    let ?st = "col_states ch i ! k"
    from True have "?st \<in> set (col_states ch i)" by simp
    from chart_all_col_states [OF 1(5) this] have "col0_item g ?st" .
    from fill_step_col0 [OF 1(3) 1(4) 1(5) this] 1(2)
    have "chart_all (col0_item g) (fill_step g eps ch i ?st)" by simp
    from 1(1) [OF True 1(2) _ 1(4) this] 1(3) True show ?thesis
      by (subst fill_col.simps) simp
  qed
qed

lemma closed_at_mono: "closed_at g eps S st \<Longrightarrow> set S \<subseteq> set S' \<Longrightarrow> closed_at g eps S' st"
  by (auto simp: closed_at_def)

lemma chart_add_mem:
  "i < length ch \<Longrightarrow> t_key st \<in> t_key ` set (col_states (chart_add ch i st) i)"
  by (auto simp: chart_add_def col_states_def col_add_def)

lemma chart_add_mono:
  "set (col_states ch i) \<subseteq> set (col_states (chart_add ch j st) i)"
  by (cases "i = j") (auto simp: chart_add_def col_states_def col_add_def)

lemma fold_chart_add_mem:
  assumes "i < length ch"
  shows "t_key ` set (col_states ch i) \<union> t_key ` f ` set xs
           \<subseteq> t_key ` set (col_states (fold (\<lambda>x c. chart_add c i (f x)) xs ch) i)"
  using assms
proof (induction xs arbitrary: ch)
  case Nil
  then show ?case by simp
next
  case (Cons x xs)
  let ?c = "chart_add ch i (f x)"
  from Cons.prems have l: "i < length ?c" by simp
  let ?R = "t_key ` set (col_states (fold (\<lambda>x c. chart_add c i (f x)) xs ?c) i)"
  have a: "t_key ` set (col_states ch i) \<subseteq> t_key ` set (col_states ?c i)"
    by (rule image_mono) (rule chart_add_mono)
  have b: "t_key (f x) \<in> t_key ` set (col_states ?c i)"
    by (rule chart_add_mem [OF Cons.prems])
  from Cons.IH [OF l] have c: "t_key ` set (col_states ?c i) \<subseteq> ?R" and d: "t_key ` f ` set xs \<subseteq> ?R"
    by blast+
  have "t_key ` set (col_states ch i) \<subseteq> ?R" using a c by (rule subset_trans)
  moreover have "t_key (f x) \<in> ?R" using b c by (rule subsetD [rotated])
  ultimately show ?case using d by simp
qed

lemma fill_step_append:
  assumes "st \<in> set (col_states ch i)"
  shows "\<exists>new. col_states (fill_step g eps ch i st) i = col_states ch i @ new"
proof -
  let ?U = "universe g ch i"
  have "ukeys st \<subseteq> ?U" by (rule col_states_in [OF chart_in_universe assms])
  moreover have "pkeys g i \<subseteq> ?U" by (simp add: universe_def)
  ultimately have "chart_ext ?U i ch (fill_step g eps ch i st)"
    by (intro fill_step_ext chart_in_universe)
  then show ?thesis by (auto simp: chart_ext_def col_ext_def)
qed

lemma fill_col_append:
  "\<exists>new. col_states (fill_col g eps ch i k) i = col_states ch i @ new"
proof (induction g eps ch i k rule: fill_col.induct)
  case (1 g eps ch i k)
  show ?case
  proof (cases "k < length (col_states ch i)")
    case False
    then show ?thesis by (subst fill_col.simps) simp
  next
    case True
    let ?st = "col_states ch i ! k"
    from True have "?st \<in> set (col_states ch i)" by simp
    from fill_step_append [OF this] obtain n1 where
      a: "col_states (fill_step g eps ch i ?st) i = col_states ch i @ n1" by blast
    from 1 [OF True] obtain n2 where
      b: "col_states (fill_col g eps (fill_step g eps ch i ?st) i (Suc k)) i
            = col_states (fill_step g eps ch i ?st) i @ n2" by blast
    from a b True show ?thesis by (subst fill_col.simps) simp
  qed
qed

lemma fill_step_closes:
  assumes "i < length ch"
  shows "closed_at g eps (col_states (fill_step g eps ch i st) i) st"
  unfolding closed_at_def
proof
  assume h: "dot st < length (expr st) \<and> expr st ! dot st \<in> fst ` set g \<and> expr st ! dot st \<in> set eps"
  let ?symb = "expr st ! dot st"
  let ?ch' = "fold (\<lambda>alt c. chart_add c i (create_state ?symb alt 0 i)) (alts_of g ?symb) ch"
  from h have "fill_step g eps ch i st = chart_add ?ch' i (advance st)"
    by (simp add: fill_step_def finished_def predict_def Let_def)
  moreover from assms have "i < length ?ch'" by simp
  ultimately show "t_key (advance st) \<in> t_key ` set (col_states (fill_step g eps ch i st) i)"
    using chart_add_mem by simp
qed

lemma fill_col_closed:
  assumes "i < length ch"
    "\<forall>j < k. j < length (col_states ch i) \<longrightarrow> closed_at g eps (col_states ch i) (col_states ch i ! j)"
  shows "\<forall>st \<in> set (col_states (fill_col g eps ch i k) i).
           closed_at g eps (col_states (fill_col g eps ch i k) i) st"
  using assms
proof (induction g eps ch i k rule: fill_col.induct)
  case (1 g eps ch i k)
  show ?case
  proof (cases "k < length (col_states ch i)")
    case False
    then have e: "fill_col g eps ch i k = ch" by (subst fill_col.simps) simp
    show ?thesis
      unfolding e
    proof
      fix st assume "st \<in> set (col_states ch i)"
      then obtain j where "j < length (col_states ch i)" "st = col_states ch i ! j"
        by (auto simp: in_set_conv_nth)
      with False 1(3) show "closed_at g eps (col_states ch i) st" by simp
    qed
  next
    case True
    let ?S = "col_states ch i"
    let ?st = "?S ! k"
    let ?ch' = "fill_step g eps ch i ?st"
    from True have m: "?st \<in> set ?S" by simp
    from fill_step_append [OF m] obtain new where a: "col_states ?ch' i = ?S @ new" by blast
    have l: "i < length ?ch'" using 1(2) by simp
    have c: "\<forall>j < Suc k. j < length (col_states ?ch' i) \<longrightarrow>
                closed_at g eps (col_states ?ch' i) (col_states ?ch' i ! j)"
    proof (intro allI impI)
      fix j assume j: "j < Suc k" "j < length (col_states ?ch' i)"
      show "closed_at g eps (col_states ?ch' i) (col_states ?ch' i ! j)"
      proof (cases "j = k")
        case True
        with \<open>k < length ?S\<close> a have "col_states ?ch' i ! j = ?st" by (simp add: nth_append)
        with fill_step_closes [OF 1(2), of g eps ?st] show ?thesis by simp
      next
        case False
        with j True have jk: "j < k" "j < length ?S" by auto
        with a have e: "col_states ?ch' i ! j = ?S ! j" by (simp add: nth_append)
        from jk 1(3) have "closed_at g eps ?S (?S ! j)" by simp
        from closed_at_mono [OF this, of "col_states ?ch' i"] a e show ?thesis by simp
      qed
    qed
    from 1(1) [OF True l c] True show ?thesis by (subst (1 2) fill_col.simps) simp
  qed
qed

lemma seed_chart_length [simp]: "length (seed_chart start alts) = 1"
  by (simp add: seed_chart_def)

lemma chart_parse_empty:
  "chart_parse g eps [] start alts = fill_col g eps (seed_chart start alts) 0 0"
proof -
  have "init_chart [] = [create_column 0 None]"
    by (simp add: init_chart_def tokens_of_def)
  then show ?thesis
    by (simp add: chart_parse_def fill_chart_def seed_chart_def [symmetric])
qed

lemma accepts_empty_iff:
  assumes "nullable g = Inr eps"
  shows "earley_accepts g [] start \<longleftrightarrow>
     (\<exists>alts. map_of g start = Some alts \<and>
        (\<exists>st \<in> set (col_states (chart_parse g eps [] start alts) 0).
           finished st \<and> name st = start \<and> expr st \<in> set alts \<and> s_col st = 0))"
proof (cases "map_of g start")
  case None
  with assms show ?thesis
    by (simp add: earley_accepts_def earley_recognize_def EarleyParser_def recognize_on_def
        parse_prefix_def)
next
  case (Some alts)
  let ?T = "chart_parse g eps [] start alts"
  have "length ?T = 1" by (simp add: chart_parse_empty)
  then obtain c where T: "?T = [c]" by (cases ?T) auto
  from chart_parse_index [of g eps "[]" start alts] T have i: "index c = 0" by simp
  have cs: "col_states ?T 0 = states c" using T by (simp add: col_states_def)
  show ?thesis
  proof (cases "start_items start alts c = []")
    case True
    with assms Some T cs show ?thesis
      by (auto simp: earley_accepts_def earley_recognize_def EarleyParser_def recognize_on_def
          parse_prefix_def start_items_def filter_empty_conv)
  next
    case False
    with assms Some T cs i show ?thesis
      by (auto simp: earley_accepts_def earley_recognize_def EarleyParser_def recognize_on_def
          parse_prefix_def start_items_def filter_empty_conv Let_def)
  qed
qed

lemma empty_sound:
  assumes eps: "set eps = {k. derives_empty g k}" and m: "map_of g start = Some alts"
    and st: "st \<in> set (col_states (chart_parse g eps [] start alts) 0)" "finished st"
  shows "derives_empty g (name st)"
proof -
  have "chart_all (col0_item g) [create_column 0 None]"
    by (simp add: chart_all_def create_column_def)
  then have "chart_all (col0_item g) (seed_chart start alts)"
    unfolding seed_chart_def
    by (rule fold_chart_add_all) (use m in \<open>simp add: col0_item_create alts_of_def\<close>)
  from fill_col_col0 [OF refl seed_chart_length eps this]
  have "chart_all (col0_item g) (chart_parse g eps [] start alts)"
    by (simp add: chart_parse_empty)
  from chart_all_col_states [OF this st(1)] have "col0_item g st" .
  from col0_item_finished [OF this st(2)] show ?thesis .
qed

lemma empty_complete:
  assumes eps: "set eps = {k. derives_empty g k}" and m: "map_of g start = Some alts"
    and alt: "alt \<in> set alts" "\<forall>s \<in> set alt. derives_empty g s"
  shows "\<exists>st \<in> set (col_states (chart_parse g eps [] start alts) 0).
           finished st \<and> name st = start \<and> expr st \<in> set alts \<and> s_col st = 0"
proof -
  let ?c0 = "seed_chart start alts"
  let ?S = "col_states (fill_col g eps ?c0 0 0) 0"
  have l: "0 < length ?c0" by simp
  have closed: "\<forall>st \<in> set ?S. closed_at g eps ?S st"
    by (rule fill_col_closed [OF l]) simp
  have "t_key (create_state start alt 0 0) \<in> t_key ` set (col_states ?c0 0)"
    using fold_chart_add_mem [of 0 "[create_column 0 None]" "\<lambda>alt. create_state start alt 0 0" alts]
      alt(1) unfolding seed_chart_def by auto
  moreover from fill_col_append [of g eps ?c0 0 0] have "set (col_states ?c0 0) \<subseteq> set ?S" by auto
  ultimately have base: "(start, alt, 0, 0) \<in> t_key ` set ?S"
    by (auto simp: t_key_def create_state_def)
  have "d \<le> length alt \<Longrightarrow> (start, alt, d, 0) \<in> t_key ` set ?S" for d
  proof (induction d)
    case 0
    show ?case by (rule base)
  next
    case (Suc d)
    then obtain st where st: "st \<in> set ?S" "t_key st = (start, alt, d, 0)" by auto
    then have f: "name st = start" "expr st = alt" "dot st = d" "s_col st = 0"
      by (auto simp: t_key_def)
    from Suc.prems have d: "d < length alt" by simp
    then have "derives_empty g (alt ! d)" using alt(2) by simp
    with derives_empty_key [of g "alt ! d"] eps
    have "alt ! d \<in> fst ` set g" "alt ! d \<in> set eps" by auto
    with closed st(1) f d have "t_key (advance st) \<in> t_key ` set ?S"
      by (simp add: closed_at_def)
    with f show ?case by (simp add: t_key_def advance_def)
  qed
  from this [of "length alt"] obtain st where
    st: "st \<in> set ?S" "t_key st = (start, alt, length alt, 0)" by auto
  with alt(1) have "finished st \<and> name st = start \<and> expr st \<in> set alts \<and> s_col st = 0"
    by (auto simp: t_key_def finished_def)
  with st(1) show ?thesis by (auto simp: chart_parse_empty)
qed

text \<open>
  C8. On every grammar of the spec and for every start symbol, the Earley recognizer
  accepts the empty input (\<^verbatim>\<open>recognize_on("", start)\<close> returns a non-empty list of
  completed start items, all of column 0) if and only if the start symbol derives the empty
  string, and that is the case if and only if the start symbol belongs to
  \<^verbatim>\<open>nullable(grammar)\<close>.
\<close>

theorem empty_input_iff_nullable:
  assumes "wf_grammar g"
  shows "(earley_accepts g [] start \<longleftrightarrow> derives_empty g start) \<and>
         (derives_empty g start \<longleftrightarrow> (\<exists>eps. nullable g = Inr eps \<and> start \<in> set eps))"
proof -
  from nullable_wf [OF assms] obtain eps where
    n: "nullable g = Inr eps" and eps: "set eps = {k. derives_empty g k}" by blast
  have "earley_accepts g [] start \<longleftrightarrow> derives_empty g start"
  proof
    assume "earley_accepts g [] start"
    then obtain alts st where "map_of g start = Some alts"
      "st \<in> set (col_states (chart_parse g eps [] start alts) 0)" "finished st" "name st = start"
      unfolding accepts_empty_iff [OF n] by blast
    with empty_sound [OF eps this(1,2,3)] show "derives_empty g start" by simp
  next
    assume "derives_empty g start"
    then obtain alts alt where "map_of g start = Some alts" "alt \<in> set alts"
      "\<forall>s \<in> set alt. derives_empty g s"
      by (auto elim: derives_empty.cases)
    from empty_complete [OF eps this] this(1) show "earley_accepts g [] start"
      unfolding accepts_empty_iff [OF n] by blast
  qed
  moreover from n eps have "derives_empty g start \<longleftrightarrow> (\<exists>eps. nullable g = Inr eps \<and> start \<in> set eps)"
    by auto
  ultimately show ?thesis by simp
qed

text \<open>
  The statement at \<^verbatim>\<open><S> ::= <A>, <A> ::= <A> a | \<close> with start \<^verbatim>\<open><S>\<close>
  (nullable, accepted) and at \<^verbatim>\<open><S> ::= a b\<close> (not nullable, rejected).
\<close>

theorem empty_input_iff_nullable_witness:
  "wf_grammar left_grammar \<and> earley_accepts left_grammar [] ''<S>'' \<and>
   derives_empty left_grammar ''<S>'' \<and>
   wf_grammar ab_grammar \<and> \<not> earley_accepts ab_grammar [] ''<S>'' \<and>
   \<not> derives_empty ab_grammar ''<S>''"
proof -
  have wf: "wf_grammar left_grammar" by code_simp
  have a: "earley_accepts left_grammar [] ''<S>''" by code_simp
  have wf2: "wf_grammar ab_grammar" by code_simp
  have b: "\<not> earley_accepts ab_grammar [] ''<S>''" by code_simp
  from empty_input_iff_nullable [OF wf, of "''<S>''"] empty_input_iff_nullable [OF wf2, of "''<S>''"]
    wf a wf2 b show ?thesis by blast
qed

subsection \<open>Soundness of the recognizer\<close>

text \<open>
  Every item of the chart is justified by a derivation, so a completed start item in the
  last column means that the start symbol derives the text.
\<close>

lemma slice_self [simp]: "slice xs i i = []"
  by (simp add: slice_def)

lemma slice_all [simp]: "slice xs 0 (length xs) = xs"
  by (simp add: slice_def)

lemma slice_append: "i \<le> k \<Longrightarrow> k \<le> j \<Longrightarrow> slice xs i k @ slice xs k j = slice xs i j"
proof -
  assume a: "i \<le> k" "k \<le> j"
  have "take (k - i) (drop i xs) @ take (j - k) (drop (k - i) (drop i xs)) = take ((k - i) + (j - k)) (drop i xs)"
    by (simp add: take_add)
  with a show ?thesis by (simp add: slice_def)
qed

lemma slice_Suc: "i \<le> j \<Longrightarrow> j < length xs \<Longrightarrow> slice xs i (Suc j) = slice xs i j @ [xs ! j]"
proof -
  assume a: "i \<le> j" "j < length xs"
  have "slice xs j (Suc j) = [xs ! j]" using a(2)
    by (simp add: slice_def take_Suc_conv_app_nth)
  with slice_append [of i j "Suc j" xs] a show ?thesis by simp
qed

lemma derives_seq_append:
  "derives_seq g xs w1 \<Longrightarrow> derives_seq g ys w2 \<Longrightarrow> derives_seq g (xs @ ys) (w1 @ w2)"
proof (induction xs arbitrary: w1)
  case Nil
  then show ?case by (auto elim: derives_seq.cases)
next
  case (Cons x xs)
  from Cons.prems(1) obtain u v where w: "w1 = u @ v" "derives g x u" "derives_seq g xs v"
    by (auto elim: derives_seq.cases)
  from d_cons [OF w(2) Cons.IH [OF w(3) Cons.prems(2)]] w(1) show ?case by simp
qed

lemma derives_seq_single: "derives g s w \<Longrightarrow> derives_seq g [s] w"
  using d_cons [OF _ d_nil, of g s w] by simp

lemma derives_seq_snoc:
  "derives_seq g xs w1 \<Longrightarrow> derives g s w2 \<Longrightarrow> derives_seq g (xs @ [s]) (w1 @ w2)"
  by (rule derives_seq_append) (auto intro: derives_seq_single)

lemma derives_alt:
  "alt \<in> set (alts_of g k) \<Longrightarrow> derives_seq g alt w \<Longrightarrow> derives g k w"
  by (auto simp: alts_of_iff intro: d_rule)

lemma derives_empty_derives: "derives_empty g k \<Longrightarrow> derives g k []"
proof (induction rule: derives_empty.induct)
  case (1 k alts alt)
  have "set xs \<subseteq> set alt \<Longrightarrow> derives_seq g xs []" for xs
  proof (induction xs)
    case Nil
    show ?case by (rule d_nil)
  next
    case (Cons x xs)
    with 1(3) have "derives g x []" "derives_seq g xs []" by auto
    from d_cons [OF this] show ?case by simp
  qed
  then have "derives_seq g alt []" by simp
  from d_rule [OF 1(1,2) this] show ?case .
qed

lemma item_ok_e_col [simp]: "item_ok g tks j (st\<lparr>e_col := x\<rparr>) = item_ok g tks j st"
  by (simp add: item_ok_def)

lemma item_ok_create:
  "alt \<in> set (alts_of g symb) \<Longrightarrow> i \<le> length tks \<Longrightarrow> item_ok g tks i (create_state symb alt 0 i)"
  by (simp add: item_ok_def create_state_def d_nil)

lemma item_ok_advance:
  assumes "item_ok g tks k p" "dot p < length (expr p)" "derives g (expr p ! dot p) (slice tks k j)"
    "k \<le> j" "j \<le> length tks"
  shows "item_ok g tks j (advance p)"
proof -
  from assms(1) have a: "s_col p \<le> k" "expr p \<in> set (alts_of g (name p))"
    "derives_seq g (take (dot p) (expr p)) (slice tks (s_col p) k)"
    by (auto simp: item_ok_def)
  from derives_seq_snoc [OF a(3) assms(3)] slice_append [OF a(1) assms(4), of tks]
  have "derives_seq g (take (Suc (dot p)) (expr p)) (slice tks (s_col p) j)"
    using assms(2) by (simp add: take_Suc_conv_app_nth)
  with a assms show ?thesis by (simp add: item_ok_def advance_def)
qed

lemma item_ok_finished:
  assumes "item_ok g tks j st" "finished st"
  shows "derives g (name st) (slice tks (s_col st) j)"
proof -
  from assms have "expr st \<in> set (alts_of g (name st))"
    "derives_seq g (expr st) (slice tks (s_col st) j)"
    by (auto simp: item_ok_def finished_def)
  then show ?thesis by (rule derives_alt)
qed

lemma chart_items_col_states: "chart_items P ch \<Longrightarrow> st \<in> set (col_states ch j) \<Longrightarrow> P j st"
  by (auto simp: chart_items_def col_states_def split: if_splits)

lemma chart_add_items:
  assumes "chart_items P ch" "\<And>x. i < length ch \<Longrightarrow> P i (st\<lparr>e_col := x\<rparr>)"
  shows "chart_items P (chart_add ch i st)"
proof (cases "i < length ch")
  case False
  with assms(1) show ?thesis by (simp add: chart_add_def)
next
  case True
  show ?thesis
    unfolding chart_items_def
  proof (intro allI impI ballI)
    fix j s assume j: "j < length (chart_add ch i st)" and s: "s \<in> set (states (chart_add ch i st ! j))"
    show "P j s"
    proof (cases "j = i")
      case False
      with j s assms(1) True show ?thesis by (auto simp: chart_add_def chart_items_def)
    next
      case ji: True
      with s True have "s \<in> set (states (ch ! i)) \<or> s = st\<lparr>e_col := Some (index (ch ! i))\<rparr>"
        by (auto simp: chart_add_def col_add_def split: if_splits)
      with assms True ji show ?thesis by (auto simp: chart_items_def)
    qed
  qed
qed

lemma fold_chart_add_items:
  assumes "chart_items P ch" "\<And>x y. x \<in> set xs \<Longrightarrow> i < length ch \<Longrightarrow> P i ((f x)\<lparr>e_col := y\<rparr>)"
  shows "chart_items P (fold (\<lambda>x c. chart_add c i (f x)) xs ch)"
  using assms
proof (induction xs arbitrary: ch)
  case Nil
  then show ?case by simp
next
  case (Cons x xs)
  have "chart_items P (chart_add ch i (f x))"
    by (rule chart_add_items [OF Cons.prems(1)]) (simp add: Cons.prems(2))
  from Cons.IH [OF this] Cons.prems(2) show ?case by simp
qed

lemma chart_add_letter [simp]: "map letter (chart_add ch i st) = map letter ch"
  by (simp add: chart_add_def col_add_def map_update list_update_same_conv)

lemma fold_chart_add_letter [simp]:
  "map letter (fold (\<lambda>x c. chart_add c j (f x)) xs ch) = map letter ch"
  by (induction xs arbitrary: ch) simp_all

lemma fill_step_letter [simp]: "map letter (fill_step g eps ch i st) = map letter ch"
  by (simp add: fill_step_def complete_def predict_def scan_def Let_def)

lemma fill_col_letter [simp]: "map letter (fill_col g eps ch i k) = map letter ch"
  by (induction g eps ch i k rule: fill_col.induct) (subst fill_col.simps, simp)

lemma frame_letter:
  assumes "map letter ch = None # map Some tks" "i < length tks"
  shows "letter (ch ! Suc i) = Some (tks ! i)"
proof -
  from assms(1) have l: "length ch = Suc (length tks)"
    using length_map [of letter ch] by simp
  with assms(2) have "letter (ch ! Suc i) = map letter ch ! Suc i" by simp
  with assms show ?thesis by simp
qed

lemma frame_length: "map letter ch = None # map Some tks \<Longrightarrow> length ch = Suc (length tks)"
  using length_map [of letter ch] by simp

lemma fill_step_items:
  assumes fr: "map letter ch = None # map Some tks"
    and eps: "\<forall>k \<in> set eps. derives g k []"
    and ch: "chart_items (item_ok g tks) ch"
    and st: "st \<in> set (col_states ch i)"
  shows "chart_items (item_ok g tks) (fill_step g eps ch i st)"
proof -
  from chart_items_col_states [OF ch st] have ok: "item_ok g tks i st" .
  then have i: "i \<le> length tks" "s_col st \<le> i" by (auto simp: item_ok_def)
  show ?thesis
  proof (cases "finished st")
    case True
    have "chart_items (item_ok g tks) (complete ch i st)"
      unfolding complete_def
    proof (rule fold_chart_add_items [OF ch])
      fix p y assume "p \<in> set (filter (\<lambda>p. at_dot p = Some (name st)) (col_states ch (s_col st)))"
      then have p: "p \<in> set (col_states ch (s_col st))" and d: "dot p < length (expr p)"
        "expr p ! dot p = name st"
        by (auto simp: at_dot_def split: if_splits)
      from chart_items_col_states [OF ch p] have pk: "item_ok g tks (s_col st) p" .
      from item_ok_finished [OF ok True] d(2)
      have "derives g (expr p ! dot p) (slice tks (s_col st) i)" by simp
      from item_ok_advance [OF pk d(1) this i(2) i(1)]
      show "item_ok g tks i ((advance p)\<lparr>e_col := y\<rparr>)" by simp
    qed
    with True show ?thesis by (simp add: fill_step_def)
  next
    case False
    then have d: "dot st < length (expr st)" by (simp add: finished_def)
    let ?symb = "expr st ! dot st"
    show ?thesis
    proof (cases "?symb \<in> fst ` set g")
      case True
      let ?ch' = "fold (\<lambda>alt c. chart_add c i (create_state ?symb alt 0 i)) (alts_of g ?symb) ch"
      have 1: "chart_items (item_ok g tks) ?ch'"
        by (rule fold_chart_add_items [OF ch]) (simp add: item_ok_create i)
      have 2: "chart_items (item_ok g tks) (chart_add ?ch' i (advance st))" if "?symb \<in> set eps"
      proof (rule chart_add_items [OF 1])
        fix x
        from that eps have "derives g ?symb (slice tks i i)" by simp
        from item_ok_advance [OF ok d this _ i(1)]
        show "item_ok g tks i ((advance st)\<lparr>e_col := x\<rparr>)" by simp
      qed
      from False True 1 2 show ?thesis
        by (simp add: fill_step_def predict_def Let_def)
    next
      case nk: False
      show ?thesis
      proof (cases "Suc i < length ch \<and> Some ?symb = letter (ch ! Suc i)")
        case False
        with \<open>\<not> finished st\<close> nk ch show ?thesis
          by (auto simp: fill_step_def scan_def Let_def)
      next
        case True
        with frame_length [OF fr] have il: "i < length tks" by simp
        from True frame_letter [OF fr il] have s: "?symb = tks ! i" by simp
        from nk have "map_of g ?symb = None" by (simp add: map_of_eq_None_iff)
        from d_term [OF this] s slice_Suc [of i i tks] il
        have dv: "derives g ?symb (slice tks i (Suc i))" by simp
        have "chart_items (item_ok g tks) (chart_add ch (Suc i) (advance st))"
        proof (rule chart_add_items [OF ch])
          fix x
          from item_ok_advance [OF ok d dv] il
          show "item_ok g tks (Suc i) ((advance st)\<lparr>e_col := x\<rparr>)" by simp
        qed
        with True \<open>\<not> finished st\<close> nk show ?thesis
          by (simp add: fill_step_def scan_def Let_def)
      qed
    qed
  qed
qed

lemma fill_col_items:
  assumes "map letter ch = None # map Some tks" "\<forall>k \<in> set eps. derives g k []"
    "chart_items (item_ok g tks) ch"
  shows "chart_items (item_ok g tks) (fill_col g eps ch i k)"
  using assms
proof (induction g eps ch i k rule: fill_col.induct)
  case (1 g eps ch i k)
  show ?case
  proof (cases "k < length (col_states ch i)")
    case False
    with 1(4) show ?thesis by (subst fill_col.simps) simp
  next
    case True
    let ?st = "col_states ch i ! k"
    from True have "?st \<in> set (col_states ch i)" by simp
    from fill_step_items [OF 1(2) 1(3) 1(4) this]
    have "chart_items (item_ok g tks) (fill_step g eps ch i ?st)" .
    from 1(1) [OF True _ 1(3) this] 1(2) True show ?thesis
      by (subst fill_col.simps) simp
  qed
qed

lemma fill_cols_items:
  assumes "map letter ch = None # map Some tks" "\<forall>k \<in> set eps. derives g k []"
    "chart_items (item_ok g tks) ch"
  shows "chart_items (item_ok g tks) (fold (\<lambda>i ch. fill_col g eps ch i 0) is ch)"
  using assms
proof (induction "is" arbitrary: ch)
  case Nil
  then show ?case by simp
next
  case (Cons i "is")
  have "chart_items (item_ok g tks) (fill_col g eps ch i 0)"
    by (rule fill_col_items [OF Cons.prems])
  from Cons.IH [OF _ Cons.prems(2) this] Cons.prems(1) show ?case by simp
qed

lemma init_chart_letter: "map letter (init_chart text) = None # map Some (tokens_of text)"
proof -
  have "map letter (map (\<lambda>(i, tok). create_column i tok) (enumerate n xs)) = xs" for n xs
    by (induction xs arbitrary: n) (simp_all add: create_column_def)
  then show ?thesis unfolding init_chart_def .
qed

lemma init_chart_items: "chart_items P (init_chart text)"
proof -
  have h: "\<forall>c \<in> set (map (\<lambda>(i, tok). create_column i tok) (enumerate n xs)). states c = []" for n xs
    by (induction xs arbitrary: n) (simp_all add: create_column_def)
  show ?thesis
    unfolding chart_items_def
  proof (intro allI impI ballI)
    fix j st assume j: "j < length (init_chart text)" and st: "st \<in> set (states (init_chart text ! j))"
    from j have "init_chart text ! j \<in> set (init_chart text)" by (rule nth_mem)
    with h [of 0 "None # map Some (tokens_of text)"] have "states (init_chart text ! j) = []"
      unfolding init_chart_def by blast
    with st show "P j st" by simp
  qed
qed

lemma chart_parse_items:
  assumes "\<forall>k \<in> set eps. derives g k []" "map_of g start = Some alts"
  shows "chart_items (item_ok g (tokens_of text)) (chart_parse g eps text start alts)"
proof -
  let ?seed = "fold (\<lambda>alt ch. chart_add ch 0 (create_state start alt 0 0)) alts (init_chart text)"
  have "chart_items (item_ok g (tokens_of text)) ?seed"
    by (rule fold_chart_add_items [OF init_chart_items])
       (use assms(2) in \<open>simp add: item_ok_create alts_of_def\<close>)
  moreover have "map letter ?seed = None # map Some (tokens_of text)"
    by (simp add: init_chart_letter)
  ultimately show ?thesis
    unfolding chart_parse_def fill_chart_def by (intro fill_cols_items assms(1))
qed

lemma recognize_on_sound:
  assumes eps: "\<forall>k \<in> set (epsilon p). derives (grammar p) k []"
    and pe: "parse_exceptions p"
    and r: "recognize_on p text start = Inr (starts, table)"
  shows "in_language (grammar p) start text"
proof -
  let ?g = "grammar p"
  let ?tks = "tokens_of text"
  from r obtain cursor sts where pp: "parse_prefix p text start = Inr (cursor, sts, table)"
    by (auto simp: recognize_on_def Let_def split: sum.splits prod.splits if_splits)
  then obtain alts where alts: "map_of ?g start = Some alts"
    and table: "table = chart_parse ?g (epsilon p) text start alts"
    and fp: "find_prefix start alts (rev table) = (cursor, sts)"
    by (auto simp: parse_prefix_def Let_def split: option.splits prod.splits)
  from r pp pe have c: "int (length text) \<le> cursor" and f: "filter finished sts \<noteq> []"
    by (auto simp: recognize_on_def Let_def split: if_splits)
  from f have ne: "sts \<noteq> []" by auto
  from find_prefix_latest [OF fp ne] obtain n where
    n: "n < length (rev table)" "cursor = int (index (rev table ! n))"
       "sts = start_items start alts (rev table ! n)" by blast
  have idx: "map index table = [0..<Suc (length text)]"
    unfolding table by (rule chart_parse_index)
  then have len: "length table = Suc (length text)"
    using length_map [of index table] by simp
  let ?j = "length table - Suc n"
  from n(1) have j: "?j < length table" by simp
  from n(1) have "rev table ! n = table ! ?j" by (simp add: rev_nth)
  moreover from j idx have "index (table ! ?j) = ?j"
    using nth_map [of ?j table index] len by (simp del: upt_Suc)
  ultimately have cj: "cursor = int ?j" and sj: "sts = start_items start alts (table ! ?j)"
    using n by simp_all
  from c cj j len have jl: "?j = length text" by simp
  from f obtain st where st: "st \<in> set sts" "finished st" by (auto simp: filter_empty_conv)
  with sj have mem: "st \<in> set (states (table ! ?j))" and nm: "name st = start" and s0: "s_col st = 0"
    by (auto simp: start_items_def)
  from chart_parse_items [OF eps alts, of "text"] have "chart_items (item_ok ?g ?tks) table"
    unfolding table .
  with j mem have "item_ok ?g ?tks ?j st" by (auto simp: chart_items_def)
  from item_ok_finished [OF this st(2)] nm s0 jl
  have "derives ?g start (slice ?tks 0 (length ?tks))" by (simp add: tokens_of_def)
  then show ?thesis by (simp add: in_language_def)
qed

lemma recognize_on_outcome:
  assumes "parse_exceptions p"
  shows "(\<exists>starts table. recognize_on p text start = Inr (starts, table)) \<or>
         recognize_on p text start =
           (case parse_prefix p text start of
              Inl e \<Rightarrow> Inl e
            | Inr (cursor, sts, table) \<Rightarrow> Inl (SyntaxError (py_slice_from text cursor)))"
  using assms by (auto simp: recognize_on_def Let_def split: sum.splits prod.splits)

lemma ab_language: "derives ab_grammar ''<S>'' w \<Longrightarrow> w = [''a'', ''b'']"
proof (erule derives.cases)
  fix s assume "''<S>'' = s" "map_of ab_grammar s = None"
  then show "w = [''a'', ''b'']" by (simp add: ab_grammar_def)
next
  fix k alts alt w' assume h: "''<S>'' = k" "w = w'" "map_of ab_grammar k = Some alts" "alt \<in> set alts"
    "derives_seq ab_grammar alt w'"
  then have alt: "alt = [''a'', ''b'']" by (auto simp: ab_grammar_def)
  have t: "derives ab_grammar [c] u \<Longrightarrow> c \<noteq> CHR ''<'' \<Longrightarrow> u = [[c]]" for c u
    by (erule derives.cases) (auto simp: ab_grammar_def split: if_splits)
  from h(5) alt obtain u1 r1 where 1: "w' = u1 @ r1" "derives ab_grammar ''a'' u1"
    "derives_seq ab_grammar [''b''] r1" by (auto elim: derives_seq.cases)
  from 1(3) obtain u2 r2 where 2: "r1 = u2 @ r2" "derives ab_grammar ''b'' u2"
    "derives_seq ab_grammar [] r2" by (auto elim: derives_seq.cases)
  from 2(3) have "r2 = []" by (auto elim: derives_seq.cases)
  with t [OF 1(2)] t [OF 2(2)] 1(1) 2(1) h(2) show "w = [''a'', ''b'']" by simp
qed

lemma ab_not_in_language: "\<not> in_language ab_grammar ''<S>'' ''a''"
  using ab_language [of "tokens_of ''a''"] by (auto simp: in_language_def tokens_of_def)


subsection \<open>The reasons of the items\<close>

lemma chart_le_refl [simp]: "chart_le ch ch"
  by (simp add: chart_le_def)

lemma chart_le_trans: "chart_le a b \<Longrightarrow> chart_le b c \<Longrightarrow> chart_le a c"
  by (auto simp: chart_le_def)

lemma chart_le_length: "chart_le ch ch' \<Longrightarrow> length ch' = length ch"
  unfolding chart_le_def using length_map [of letter ch] length_map [of letter ch'] by simp

lemma chart_le_letter: "chart_le ch ch' \<Longrightarrow> j < length ch \<Longrightarrow> letter (ch' ! j) = letter (ch ! j)"
proof -
  assume a: "chart_le ch ch'" "j < length ch"
  from chart_le_length [OF a(1)] a(2) have "letter (ch' ! j) = map letter ch' ! j" by simp
  also from a(1) have "\<dots> = map letter ch ! j" by (simp add: chart_le_def)
  also from a(2) have "\<dots> = letter (ch ! j)" by simp
  finally show ?thesis .
qed

lemma chart_le_add: "chart_le ch (chart_add ch i st)"
  by (simp add: chart_le_def chart_add_mono)

lemma chart_le_fold: "chart_le ch (fold (\<lambda>x c. chart_add c i (f x)) xs ch)"
proof (induction xs arbitrary: ch)
  case Nil
  show ?case by simp
next
  case (Cons x xs)
  from chart_le_trans [OF chart_le_add Cons.IH] show ?case by simp
qed

lemma has_key_mono: "chart_le ch ch' \<Longrightarrow> has_key ch j k \<Longrightarrow> has_key ch' j k"
  by (auto simp: chart_le_def has_key_def)

lemma prov_mono:
  assumes "chart_le ch ch'" "prov g eps ch j st"
  shows "prov g eps ch' j st"
proof (cases "dot st = 0")
  case True
  then show ?thesis by (simp add: prov_def)
next
  case False
  let ?x = "expr st ! (dot st - 1)"
  let ?pre = "(name st, expr st, dot st - 1, s_col st)"
  from assms(2) False consider
      (scan) "?x \<notin> fst ` set g" "0 < j" "j < length ch" "letter (ch ! j) = Some ?x" "has_key ch (j - 1) ?pre"
    | (comp) s where "?x \<in> fst ` set g" "s \<in> set (col_states ch j)" "finished s" "name s = ?x"
        "has_key ch (s_col s) ?pre"
    | (null) "?x \<in> fst ` set g" "?x \<in> set eps" "has_key ch j ?pre"
    by (auto simp: prov_def Let_def)
  then show ?thesis
  proof cases
    case scan
    from scan(3) chart_le_length [OF assms(1)] have "j < length ch'" by simp
    moreover from chart_le_letter [OF assms(1) scan(3)] scan(4) have "letter (ch' ! j) = Some ?x" by simp
    moreover from has_key_mono [OF assms(1) scan(5)] have "has_key ch' (j - 1) ?pre" .
    ultimately show ?thesis using scan(1,2) by (simp add: prov_def Let_def)
  next
    case comp
    from comp(2) assms(1) have "s \<in> set (col_states ch' j)" by (auto simp: chart_le_def)
    moreover from has_key_mono [OF assms(1) comp(5)] have "has_key ch' (s_col s) ?pre" .
    ultimately show ?thesis using comp(1,3,4) by (auto simp: prov_def Let_def)
  next
    case null
    from has_key_mono [OF assms(1) null(3)] null(1,2) show ?thesis by (simp add: prov_def Let_def)
  qed
qed

lemma prov_e_col [simp]: "prov g eps ch j (st\<lparr>e_col := x\<rparr>) = prov g eps ch j st"
  by (simp add: prov_def)

lemma chart_prov_col_states: "chart_prov g eps ch \<Longrightarrow> st \<in> set (col_states ch j) \<Longrightarrow> prov g eps ch j st"
  by (auto simp: chart_prov_def col_states_def split: if_splits)

lemma chart_add_states:
  "j < length ch \<Longrightarrow> s \<in> set (states (chart_add ch i st ! j)) \<Longrightarrow>
   s \<in> set (states (ch ! j)) \<or> (j = i \<and> s = st\<lparr>e_col := Some (index (ch ! i))\<rparr>)"
  by (cases "j = i") (auto simp: chart_add_def col_add_def split: if_splits)

lemma chart_add_prov:
  assumes "chart_prov g eps ch" "i < length ch \<Longrightarrow> prov g eps ch i st"
  shows "chart_prov g eps (chart_add ch i st)"
  unfolding chart_prov_def
proof (intro allI impI ballI)
  fix j s assume j: "j < length (chart_add ch i st)" and s: "s \<in> set (states (chart_add ch i st ! j))"
  from j have j': "j < length ch" by simp
  from chart_add_states [OF j' s] have "prov g eps ch j s"
  proof
    assume "s \<in> set (states (ch ! j))"
    with assms(1) j' show ?thesis by (simp add: chart_prov_def)
  next
    assume "j = i \<and> s = st\<lparr>e_col := Some (index (ch ! i))\<rparr>"
    with assms(2) j' show ?thesis by simp
  qed
  from prov_mono [OF chart_le_add this] show "prov g eps (chart_add ch i st) j s" .
qed

lemma fold_chart_add_prov:
  assumes "chart_prov g eps ch" "\<And>x. x \<in> set xs \<Longrightarrow> i < length ch \<Longrightarrow> prov g eps ch i (f x)"
  shows "chart_prov g eps (fold (\<lambda>x c. chart_add c i (f x)) xs ch)"
  using assms
proof (induction xs arbitrary: ch)
  case Nil
  then show ?case by simp
next
  case (Cons x xs)
  have 1: "chart_prov g eps (chart_add ch i (f x))"
    by (rule chart_add_prov [OF Cons.prems(1)]) (simp add: Cons.prems(2))
  have 2: "prov g eps (chart_add ch i (f x)) i (f y)" if "y \<in> set xs" "i < length (chart_add ch i (f x))" for y
    using prov_mono [OF chart_le_add Cons.prems(2) [of y]] that by simp
  from Cons.IH [OF 1 2] show ?case by simp
qed

lemma has_key_mem: "p \<in> set (col_states ch j) \<Longrightarrow> has_key ch j (t_key p)"
  by (simp add: has_key_def)

lemma fill_step_prov:
  assumes pv: "chart_prov g eps ch" and st: "st \<in> set (col_states ch i)"
    and nm: "name st \<in> fst ` set g"
  shows "chart_prov g eps (fill_step g eps ch i st)"
proof (cases "finished st")
  case True
  have "chart_prov g eps (complete ch i st)"
    unfolding complete_def
  proof (rule fold_chart_add_prov [OF pv])
    fix p assume "p \<in> set (filter (\<lambda>p. at_dot p = Some (name st)) (col_states ch (s_col st)))"
    then have p: "p \<in> set (col_states ch (s_col st))" and d: "dot p < length (expr p)"
      "expr p ! dot p = name st"
      by (auto simp: at_dot_def split: if_splits)
    from has_key_mem [OF p] have "has_key ch (s_col st) (name p, expr p, dot p, s_col p)"
      by (simp add: t_key_def)
    with st True nm d(2) show "prov g eps ch i (advance p)"
      by (auto simp: prov_def Let_def advance_def)
  qed
  with True show ?thesis by (simp add: fill_step_def)
next
  case False
  then have d: "dot st < length (expr st)" by (simp add: finished_def)
  let ?symb = "expr st ! dot st"
  from has_key_mem [OF st] have hk: "has_key ch i (name st, expr st, dot st, s_col st)"
    by (simp add: t_key_def)
  show ?thesis
  proof (cases "?symb \<in> fst ` set g")
    case True
    let ?ch' = "fold (\<lambda>alt c. chart_add c i (create_state ?symb alt 0 i)) (alts_of g ?symb) ch"
    have 1: "chart_prov g eps ?ch'"
      by (rule fold_chart_add_prov [OF pv]) (simp add: prov_def create_state_def)
    have 2: "chart_prov g eps (chart_add ?ch' i (advance st))" if "?symb \<in> set eps"
    proof (rule chart_add_prov [OF 1])
      from has_key_mono [OF chart_le_fold hk] have "has_key ?ch' i (name st, expr st, dot st, s_col st)" .
      with True that show "prov g eps ?ch' i (advance st)"
        by (simp add: prov_def Let_def advance_def)
    qed
    from False True 1 2 show ?thesis
      by (simp add: fill_step_def predict_def Let_def)
  next
    case nk: False
    show ?thesis
    proof (cases "Suc i < length ch \<and> Some ?symb = letter (ch ! Suc i)")
      case False
      with \<open>\<not> finished st\<close> nk pv show ?thesis
        by (auto simp: fill_step_def scan_def Let_def)
    next
      case True
      have "chart_prov g eps (chart_add ch (Suc i) (advance st))"
      proof (rule chart_add_prov [OF pv])
        from True nk hk show "prov g eps ch (Suc i) (advance st)"
          by (simp add: prov_def Let_def advance_def)
      qed
      with True \<open>\<not> finished st\<close> nk show ?thesis
        by (simp add: fill_step_def scan_def Let_def)
    qed
  qed
qed

lemma chart_loc_col_states: "chart_loc ch \<Longrightarrow> st \<in> set (col_states ch j) \<Longrightarrow> item_loc j st"
  by (auto simp: chart_loc_def col_states_def split: if_splits)

lemma chart_add_loc:
  assumes "chart_loc ch" "dot st = 0 \<longrightarrow> s_col st = i"
  shows "chart_loc (chart_add ch i st)"
  unfolding chart_loc_def
proof (intro allI impI conjI ballI)
  fix j assume j: "j < length (chart_add ch i st)"
  then have j': "j < length ch" by simp
  from assms(1) j' have ix: "index (ch ! j) = j" by (simp add: chart_loc_def)
  have "index (chart_add ch i st ! j) = index (ch ! j)"
    using j' by (cases "j = i") (simp_all add: chart_add_def)
  with ix show "index (chart_add ch i st ! j) = j" by simp
  fix s assume "s \<in> set (states (chart_add ch i st ! j))"
  from chart_add_states [OF j' this] show "item_loc j s"
  proof
    assume "s \<in> set (states (ch ! j))"
    with assms(1) j' show ?thesis by (simp add: chart_loc_def)
  next
    assume a: "j = i \<and> s = st\<lparr>e_col := Some (index (ch ! i))\<rparr>"
    with ix assms(2) show ?thesis by (simp add: item_loc_def)
  qed
qed

lemma fold_chart_add_loc:
  assumes "chart_loc ch" "\<And>x. x \<in> set xs \<Longrightarrow> dot (f x) = 0 \<longrightarrow> s_col (f x) = i"
  shows "chart_loc (fold (\<lambda>x c. chart_add c i (f x)) xs ch)"
  using assms
proof (induction xs arbitrary: ch)
  case Nil
  then show ?case by simp
next
  case (Cons x xs)
  have "chart_loc (chart_add ch i (f x))"
    by (rule chart_add_loc [OF Cons.prems(1)]) (simp add: Cons.prems(2))
  from Cons.IH [OF this] Cons.prems(2) show ?case by simp
qed

lemma fill_step_loc:
  assumes "chart_loc ch"
  shows "chart_loc (fill_step g eps ch i st)"
proof -
  have 1: "chart_loc (complete ch i st)"
    unfolding complete_def by (rule fold_chart_add_loc [OF assms]) (simp add: advance_def)
  let ?symb = "expr st ! dot st"
  let ?ch' = "fold (\<lambda>alt c. chart_add c i (create_state ?symb alt 0 i)) (alts_of g ?symb) ch"
  have 2: "chart_loc ?ch'"
    by (rule fold_chart_add_loc [OF assms]) (simp add: create_state_def)
  have 3: "chart_loc (chart_add ?ch' i (advance st))"
    by (rule chart_add_loc [OF 2]) (simp add: advance_def)
  have 4: "chart_loc (chart_add ch (Suc i) (advance st))"
    by (rule chart_add_loc [OF assms]) (simp add: advance_def)
  from assms 1 2 3 4 show ?thesis
    by (simp add: fill_step_def predict_def scan_def Let_def)
qed

lemma item_ok_key: "item_ok g tks j st \<Longrightarrow> name st \<in> fst ` set g"
  by (auto simp: item_ok_def alts_of_iff dest!: map_of_SomeD intro: rev_image_eqI)

lemma fill_step_chart_inv:
  assumes "\<forall>k \<in> set eps. derives g k []" "chart_inv g eps tks ch" "st \<in> set (col_states ch i)"
  shows "chart_inv g eps tks (fill_step g eps ch i st)"
proof -
  from assms(2) have fr: "map letter ch = None # map Some tks"
    and ok: "chart_items (item_ok g tks) ch" and pv: "chart_prov g eps ch" and lc: "chart_loc ch"
    by (simp_all add: chart_inv_def)
  from item_ok_key [OF chart_items_col_states [OF ok assms(3)]] have nm: "name st \<in> fst ` set g" .
  from fill_step_items [OF fr assms(1) ok assms(3)] fill_step_prov [OF pv assms(3) nm]
    fill_step_loc [OF lc] fr
  show ?thesis by (simp add: chart_inv_def)
qed

lemma fill_col_chart_inv:
  assumes "\<forall>k \<in> set eps. derives g k []" "chart_inv g eps tks ch"
  shows "chart_inv g eps tks (fill_col g eps ch i k)"
  using assms
proof (induction g eps ch i k rule: fill_col.induct)
  case (1 g eps ch i k)
  show ?case
  proof (cases "k < length (col_states ch i)")
    case False
    with 1(3) show ?thesis by (subst fill_col.simps) simp
  next
    case True
    let ?st = "col_states ch i ! k"
    from True have "?st \<in> set (col_states ch i)" by simp
    from fill_step_chart_inv [OF 1(2) 1(3) this]
    have "chart_inv g eps tks (fill_step g eps ch i ?st)" .
    from 1(1) [OF True 1(2) this] True show ?thesis
      by (subst fill_col.simps) simp
  qed
qed

lemma fill_cols_chart_inv:
  assumes "\<forall>k \<in> set eps. derives g k []" "chart_inv g eps tks ch"
  shows "chart_inv g eps tks (fold (\<lambda>i ch. fill_col g eps ch i 0) is ch)"
  using assms
proof (induction "is" arbitrary: ch)
  case Nil
  then show ?case by simp
next
  case (Cons i "is")
  have "chart_inv g eps tks (fill_col g eps ch i 0)"
    by (rule fill_col_chart_inv [OF Cons.prems])
  from Cons.IH [OF Cons.prems(1) this] show ?case by simp
qed

lemma init_chart_loc: "chart_loc (init_chart text)"
  unfolding chart_loc_def
proof (intro allI impI conjI ballI)
  fix j assume j: "j < length (init_chart text)"
  from init_chart_index [of "text"] have l: "length (init_chart text) = Suc (length text)"
    using length_map [of index "init_chart text"] by simp
  from j have "index (init_chart text ! j) = map index (init_chart text) ! j" by simp
  also have "\<dots> = [0..<Suc (length text)] ! j" by (simp only: init_chart_index)
  also from j l have "\<dots> = j" by (simp del: upt_Suc)
  finally show "index (init_chart text ! j) = j" .
  fix st assume "st \<in> set (states (init_chart text ! j))"
  with init_chart_items [of "\<lambda>j st. False" "text"] j show "item_loc j st"
    by (auto simp: chart_items_def)
qed

lemma init_chart_prov: "chart_prov g eps (init_chart text)"
  using init_chart_items [of "\<lambda>j st. False" "text"] by (auto simp: chart_prov_def chart_items_def)

lemma seed_chart_inv:
  assumes "map_of g start = Some alts"
  shows "chart_inv g eps (tokens_of text)
           (fold (\<lambda>alt ch. chart_add ch 0 (create_state start alt 0 0)) alts (init_chart text))"
proof -
  let ?seed = "fold (\<lambda>alt ch. chart_add ch 0 (create_state start alt 0 0)) alts (init_chart text)"
  have "chart_items (item_ok g (tokens_of text)) ?seed"
    by (rule fold_chart_add_items [OF init_chart_items])
       (use assms in \<open>simp add: item_ok_create alts_of_def\<close>)
  moreover have "map letter ?seed = None # map Some (tokens_of text)"
    by (simp add: init_chart_letter)
  moreover have "chart_prov g eps ?seed"
    by (rule fold_chart_add_prov [OF init_chart_prov]) (simp add: prov_def create_state_def)
  moreover have "chart_loc ?seed"
    by (rule fold_chart_add_loc [OF init_chart_loc]) (simp add: create_state_def)
  ultimately show ?thesis by (simp add: chart_inv_def)
qed

lemma chart_parse_inv:
  assumes "\<forall>k \<in> set eps. derives g k []" "map_of g start = Some alts"
  shows "chart_inv g eps (tokens_of text) (chart_parse g eps text start alts)"
  unfolding chart_parse_def fill_chart_def
  by (intro fill_cols_chart_inv assms(1) seed_chart_inv assms(2))


subsection \<open>Closed columns\<close>

lemma pred_at_mono: "pred_at g i S st \<Longrightarrow> set S \<subseteq> set S' \<Longrightarrow> pred_at g i S' st"
  unfolding pred_at_def using image_mono [of "set S" "set S'" t_key] by blast

lemma fill_step_predicts:
  assumes "i < length ch"
  shows "pred_at g i (col_states (fill_step g eps ch i st) i) st"
  unfolding pred_at_def
proof (intro impI ballI)
  let ?symb = "expr st ! dot st"
  fix alt assume h: "dot st < length (expr st) \<and> ?symb \<in> fst ` set g" and alt: "alt \<in> set (alts_of g ?symb)"
  let ?ch' = "fold (\<lambda>alt c. chart_add c i (create_state ?symb alt 0 i)) (alts_of g ?symb) ch"
  from fold_chart_add_mem [OF assms, of "\<lambda>alt. create_state ?symb alt 0 i" "alts_of g ?symb"] alt
  have "t_key (create_state ?symb alt 0 i) \<in> t_key ` set (col_states ?ch' i)" by blast
  then have 1: "(?symb, alt, 0, i) \<in> t_key ` set (col_states ?ch' i)"
    by (simp add: t_key_def create_state_def)
  have "set (col_states ?ch' i) \<subseteq> set (col_states (fill_step g eps ch i st) i)"
    using h chart_add_mono [of ?ch' i i "advance st"]
    by (simp add: fill_step_def finished_def predict_def Let_def)
  with 1 show "(?symb, alt, 0, i) \<in> t_key ` set (col_states (fill_step g eps ch i st) i)" by blast
qed

lemma fill_col_pred:
  assumes "i < length ch"
    "\<forall>j < k. j < length (col_states ch i) \<longrightarrow> pred_at g i (col_states ch i) (col_states ch i ! j)"
  shows "\<forall>st \<in> set (col_states (fill_col g eps ch i k) i).
           pred_at g i (col_states (fill_col g eps ch i k) i) st"
  using assms
proof (induction g eps ch i k rule: fill_col.induct)
  case (1 g eps ch i k)
  show ?case
  proof (cases "k < length (col_states ch i)")
    case False
    then have e: "fill_col g eps ch i k = ch" by (subst fill_col.simps) simp
    show ?thesis
      unfolding e
    proof
      fix st assume "st \<in> set (col_states ch i)"
      then obtain j where "j < length (col_states ch i)" "st = col_states ch i ! j"
        by (auto simp: in_set_conv_nth)
      with False 1(3) show "pred_at g i (col_states ch i) st" by simp
    qed
  next
    case True
    let ?S = "col_states ch i"
    let ?st = "?S ! k"
    let ?ch' = "fill_step g eps ch i ?st"
    from True have mem: "?st \<in> set ?S" by simp
    from fill_step_append [OF mem] obtain new where a: "col_states ?ch' i = ?S @ new" by blast
    have l: "i < length ?ch'" using 1(2) by simp
    have c: "\<forall>j < Suc k. j < length (col_states ?ch' i) \<longrightarrow>
                pred_at g i (col_states ?ch' i) (col_states ?ch' i ! j)"
    proof (intro allI impI)
      fix j assume j: "j < Suc k" "j < length (col_states ?ch' i)"
      show "pred_at g i (col_states ?ch' i) (col_states ?ch' i ! j)"
      proof (cases "j = k")
        case True
        with \<open>k < length ?S\<close> a have "col_states ?ch' i ! j = ?st" by (simp add: nth_append)
        with fill_step_predicts [OF 1(2), of g eps ?st] show ?thesis by simp
      next
        case False
        with j True have jk: "j < k" "j < length ?S" by auto
        with a have e: "col_states ?ch' i ! j = ?S ! j" by (simp add: nth_append)
        from jk 1(3) have "pred_at g i ?S (?S ! j)" by simp
        from pred_at_mono [OF this, of "col_states ?ch' i"] a e show ?thesis by simp
      qed
    qed
    from 1(1) [OF True l c] True show ?thesis by (subst (1 2) fill_col.simps) simp
  qed
qed

lemma fill_col_col_closed: "i < length ch \<Longrightarrow> col_closed g eps (fill_col g eps ch i 0) i"
  using fill_col_closed [of i ch 0 g eps] fill_col_pred [of i ch 0 g eps]
  by (simp add: col_closed_def)

lemma chart_add_other: "j \<noteq> i \<Longrightarrow> col_states (chart_add ch i st) j = col_states ch j"
  by (simp add: chart_add_def col_states_def)

lemma fold_chart_add_other:
  "j \<noteq> i \<Longrightarrow> col_states (fold (\<lambda>x c. chart_add c i (f x)) xs ch) j = col_states ch j"
  by (induction xs arbitrary: ch) (simp_all add: chart_add_other)

lemma fill_step_other: "j < i \<Longrightarrow> col_states (fill_step g eps ch i st) j = col_states ch j"
  by (simp add: fill_step_def complete_def predict_def scan_def Let_def
      fold_chart_add_other chart_add_other)

lemma fill_col_other: "j < i \<Longrightarrow> col_states (fill_col g eps ch i k) j = col_states ch j"
proof (induction g eps ch i k rule: fill_col.induct)
  case (1 g eps ch i k)
  show ?case
  proof (cases "k < length (col_states ch i)")
    case False
    then show ?thesis by (subst fill_col.simps) simp
  next
    case True
    from 1(1) [OF True 1(2)] fill_step_other [OF 1(2)] True show ?thesis
      by (subst fill_col.simps) simp
  qed
qed

lemma fill_cols_closed:
  "n \<le> length ch \<Longrightarrow> j < n \<Longrightarrow>
   col_closed g eps (fold (\<lambda>i ch. fill_col g eps ch i 0) [0..<n] ch) j"
proof (induction n)
  case 0
  then show ?case by simp
next
  case (Suc n)
  let ?c = "fold (\<lambda>i ch. fill_col g eps ch i 0) [0..<n] ch"
  have len: "length ?c = length ch"
    by (induction n) simp_all
  have e: "fold (\<lambda>i ch. fill_col g eps ch i 0) [0..<Suc n] ch = fill_col g eps ?c n 0" by simp
  show ?case
  proof (cases "j = n")
    case True
    from Suc.prems len have "n < length ?c" by simp
    from fill_col_col_closed [OF this] True show ?thesis unfolding e by simp
  next
    case False
    with Suc.prems have jn: "j < n" by simp
    from Suc.IH [OF _ jn] Suc.prems have "col_closed g eps ?c j" by simp
    with fill_col_other [OF jn, of g eps ?c 0] show ?thesis
      unfolding e by (simp add: col_closed_def)
  qed
qed

lemma chart_parse_closed:
  "j \<le> length text \<Longrightarrow> col_closed g eps (chart_parse g eps text start alts) j"
proof -
  let ?seed = "fold (\<lambda>alt ch. chart_add ch 0 (create_state start alt 0 0)) alts (init_chart text)"
  have "length ?seed = Suc (length text)"
    using init_chart_index [of "text"] length_map [of index "init_chart text"] by simp
  moreover assume "j \<le> length text"
  ultimately show ?thesis
    unfolding chart_parse_def fill_chart_def
    using fill_cols_closed [of "length ?seed" ?seed j g eps] by simp
qed

lemma nullable_finished:
  assumes cl: "col_closed g eps T j" and eps: "set eps = {k. derives_empty g k}"
    and p: "p \<in> set (col_states T j)" "dot p < length (expr p)" "expr p ! dot p = X"
      "X \<in> fst ` set g" "X \<in> set eps"
  shows "\<exists>s \<in> set (col_states T j). finished s \<and> name s = X \<and> s_col s = j"
proof -
  let ?S = "col_states T j"
  from p(5) eps have "derives_empty g X" by auto
  then obtain alts alt where a: "map_of g X = Some alts" "alt \<in> set alts"
    "\<forall>s \<in> set alt. derives_empty g s"
    by (auto elim: derives_empty.cases)
  from cl p(1) have "pred_at g j ?S p" by (simp add: col_closed_def)
  with p(2,3,4) a(1,2) have base: "(X, alt, 0, j) \<in> t_key ` set ?S"
    by (simp add: pred_at_def alts_of_def)
  have "d \<le> length alt \<Longrightarrow> (X, alt, d, j) \<in> t_key ` set ?S" for d
  proof (induction d)
    case 0
    show ?case by (rule base)
  next
    case (Suc d)
    then obtain st where st: "st \<in> set ?S" "t_key st = (X, alt, d, j)" by auto
    then have f: "name st = X" "expr st = alt" "dot st = d" "s_col st = j"
      by (auto simp: t_key_def)
    from Suc.prems have d: "d < length alt" by simp
    then have "derives_empty g (alt ! d)" using a(3) by simp
    with derives_empty_key [of g "alt ! d"] eps
    have "alt ! d \<in> fst ` set g" "alt ! d \<in> set eps" by auto
    moreover from cl st(1) have "closed_at g eps ?S st" by (simp add: col_closed_def)
    ultimately have "t_key (advance st) \<in> t_key ` set ?S"
      using f d by (simp add: closed_at_def)
    with f show ?case by (simp add: t_key_def advance_def)
  qed
  from this [of "length alt"] obtain s where
    s: "s \<in> set ?S" "t_key s = (X, alt, length alt, j)" by auto
  then have "finished s \<and> name s = X \<and> s_col s = j"
    by (auto simp: t_key_def finished_def)
  with s(1) show ?thesis by blast
qed


subsection \<open>Parse paths\<close>

text \<open>
  Every item of the final chart with the dot past a symbol has a parse path, and every
  parse path covers the tokens between the item's columns.
\<close>

lemma parse_paths_snoc:
  "parse_paths g ch (xs @ [x]) frm til =
     concat (map
        (\<lambda>(s, start).
            if xs = [] then (if start = frm then [[s]] else [])
            else map (\<lambda>r. s # r) (parse_paths g ch xs frm start))
        (if x \<notin> fst ` set g
         then (if til > 0 \<and> til < length ch \<and> letter (ch ! til) = Some x
               then [(PT x, til - length x)] else [])
         else map (\<lambda>s. (PN s, s_col s))
                (filter (\<lambda>s. finished s \<and> name s = x) (col_states ch til))))"
proof -
  have ne: "(xs @ [x] = []) = False" by simp
  show ?thesis
    by (subst parse_paths.simps) (simp only: butlast_snoc last_snoc ne if_False)
qed

lemma parse_paths_Nil [simp]: "parse_paths g ch [] frm til = []"
  by (subst parse_paths.simps) simp

lemma parse_paths_terminal:
  assumes "x \<notin> fst ` set g" "0 < til" "til < length ch" "letter (ch ! til) = Some x"
  shows "parse_paths g ch (xs @ [x]) frm til =
           (if xs = [] then (if til - length x = frm then [[PT x]] else [])
            else map (\<lambda>r. PT x # r) (parse_paths g ch xs frm (til - length x)))"
  using assms by (simp add: parse_paths_snoc)

lemma parse_paths_nonterminal:
  assumes "x \<in> fst ` set g" "s \<in> set (col_states ch til)" "finished s" "name s = x"
  shows "set (if xs = [] then (if s_col s = frm then [[PN s]] else [])
              else map (\<lambda>r. PN s # r) (parse_paths g ch xs frm (s_col s)))
           \<subseteq> set (parse_paths g ch (xs @ [x]) frm til)"
proof -
  let ?F = "\<lambda>(s, start). if xs = [] then (if start = frm then [[s]] else [])
            else map (\<lambda>r. s # r) (parse_paths g ch xs frm start)"
  let ?C = "map (\<lambda>s. (PN s, s_col s)) (filter (\<lambda>s. finished s \<and> name s = x) (col_states ch til))"
  from assms have "(PN s, s_col s) \<in> set ?C" by simp
  then have "set (?F (PN s, s_col s)) \<subseteq> set (concat (map ?F ?C))" by (simp only: set_concat set_map) blast
  with assms(1) show ?thesis by (simp add: parse_paths_snoc)
qed

lemma col_states_length: "st \<in> set (col_states ch j) \<Longrightarrow> j < length ch"
  by (auto simp: col_states_def split: if_splits)

lemma has_key_obtain:
  assumes "has_key ch j (n, e, d, s)"
  obtains p where "p \<in> set (col_states ch j)" "name p = n" "expr p = e" "dot p = d" "s_col p = s"
  using assms by (auto simp: has_key_def t_key_def)

lemma paths_nonempty:
  assumes fin: "chart_final g eps tks T"
  shows "st \<in> set (col_states T j) \<Longrightarrow> dot st = d \<Longrightarrow> 0 < d \<Longrightarrow>
         parse_paths g T (take d (expr st)) (s_col st) j \<noteq> []"
proof (induction d arbitrary: st j)
  case 0
  then show ?case by simp
next
  case (Suc d)
  from fin have fr: "map letter T = None # map Some tks"
    and ok: "chart_items (item_ok g tks) T" and pv: "chart_prov g eps T" and lc: "chart_loc T"
    and cl: "\<And>j. j < length T \<Longrightarrow> col_closed g eps T j"
    and eps: "set eps = {k. derives_empty g k}" and tk: "\<forall>t \<in> set tks. length t = 1"
    by (simp_all add: chart_final_def chart_inv_def)
  let ?frm = "s_col st"
  let ?x = "expr st ! d"
  let ?xs = "take d (expr st)"
  from chart_items_col_states [OF ok Suc.prems(1)] Suc.prems(2)
  have dl: "d < length (expr st)" by (simp add: item_ok_def)
  then have tk_eq: "take (Suc d) (expr st) = ?xs @ [?x]" by (simp add: take_Suc_conv_app_nth)
  have xs_nil: "?xs = [] \<longleftrightarrow> d = 0" using dl by auto
  have pre: "parse_paths g T ?xs ?frm c \<noteq> [] \<or> (d = 0 \<and> c = ?frm)"
    if "has_key T c (name st, expr st, d, s_col st)" for c
  proof -
    from that obtain p where p: "p \<in> set (col_states T c)" "name p = name st" "expr p = expr st"
      "dot p = d" "s_col p = s_col st" by (rule has_key_obtain)
    show ?thesis
    proof (cases "d = 0")
      case True
      from chart_loc_col_states [OF lc p(1)] p(4,5) True show ?thesis by (simp add: item_loc_def)
    next
      case False
      with Suc.IH [OF p(1) p(4)] p(3,5) show ?thesis by simp
    qed
  qed
  from chart_prov_col_states [OF pv Suc.prems(1)] Suc.prems(2) consider
      (scan) "?x \<notin> fst ` set g" "0 < j" "j < length T" "letter (T ! j) = Some ?x"
        "has_key T (j - 1) (name st, expr st, d, s_col st)"
    | (comp) s where "?x \<in> fst ` set g" "s \<in> set (col_states T j)" "finished s" "name s = ?x"
        "has_key T (s_col s) (name st, expr st, d, s_col st)"
    | (null) "?x \<in> fst ` set g" "?x \<in> set eps" "has_key T j (name st, expr st, d, s_col st)"
    by (auto simp: prov_def Let_def)
  then have "parse_paths g T (?xs @ [?x]) ?frm j \<noteq> []"
  proof cases
    case scan
    from scan(2,3) frame_length [OF fr] have jl: "j - 1 < length tks" by simp
    from frame_letter [OF fr jl] scan(2,4) have "?x = tks ! (j - 1)" by simp
    with tk jl have lx: "length ?x = 1" by simp
    from pre [OF scan(5)] show ?thesis
      unfolding parse_paths_terminal [OF scan(1-4)] lx using xs_nil by auto
  next
    case comp
    from pre [OF comp(5)] have
      "(if ?xs = [] then (if s_col s = ?frm then [[PN s]] else [])
        else map (\<lambda>r. PN s # r) (parse_paths g T ?xs ?frm (s_col s))) \<noteq> []"
      using xs_nil by auto
    with parse_paths_nonterminal [OF comp(1-4), of ?xs ?frm] show ?thesis by auto
  next
    case null
    from null(3) obtain p where p: "p \<in> set (col_states T j)" "name p = name st" "expr p = expr st"
      "dot p = d" "s_col p = s_col st" by (rule has_key_obtain)
    from col_states_length [OF p(1)] have "j < length T" .
    from nullable_finished [OF cl [OF this] eps p(1) _ _ null(1,2)] p(3,4) dl
    obtain s where s: "s \<in> set (col_states T j)" "finished s" "name s = ?x" "s_col s = j"
      by auto
    from pre [OF null(3)] s(4) have
      "(if ?xs = [] then (if s_col s = ?frm then [[PN s]] else [])
        else map (\<lambda>r. PN s # r) (parse_paths g T ?xs ?frm (s_col s))) \<noteq> []"
      using xs_nil by auto
    with parse_paths_nonterminal [OF null(1) s(1-3), of ?xs ?frm] show ?thesis by auto
  qed
  with tk_eq show ?case by simp
qed

lemma fspan_snoc:
  "fspan ch tks (ps @ [p]) a b \<longleftrightarrow> (\<exists>c. fspan ch tks ps a c \<and> espan ch tks p c b)"
  by (induction ps arbitrary: a) auto

lemma parse_paths_fspan:
  assumes fr: "map letter ch = None # map Some tks" and tk: "\<forall>t \<in> set tks. length t = 1"
  shows "r \<in> set (parse_paths g ch e frm til) \<Longrightarrow> fspan ch tks (rev r) frm til"
proof (induction e arbitrary: til r rule: rev_induct)
  case Nil
  then show ?case by simp
next
  case (snoc x xs)
  show ?case
  proof (cases "x \<in> fst ` set g")
    case False
    show ?thesis
    proof (cases "0 < til \<and> til < length ch \<and> letter (ch ! til) = Some x")
      case nc: False
      with False snoc.prems show ?thesis by (simp add: parse_paths_snoc)
    next
      case True
      then have c: "0 < til" "til < length ch" "letter (ch ! til) = Some x" by simp_all
      from c(1,2) frame_length [OF fr] have jl: "til - 1 < length tks" by simp
      from frame_letter [OF fr jl] c(1,3) have x: "x = tks ! (til - 1)" by simp
      with tk jl have lx: "length x = 1" by simp
      have es: "espan ch tks (PT x) (til - 1) til" using c(1) jl x by (simp add: espan_def)
      show ?thesis
      proof (cases "xs = []")
        case True
        with snoc.prems have "r = [PT x]" "til - 1 = frm"
          unfolding parse_paths_terminal [OF False c] lx by (auto split: if_splits)
        with es show ?thesis by auto
      next
        case nn: False
        with snoc.prems obtain r' where r: "r = PT x # r'" "r' \<in> set (parse_paths g ch xs frm (til - 1))"
          unfolding parse_paths_terminal [OF False c] lx by auto
        from snoc.IH [OF r(2)] es r(1) show ?thesis by (auto simp: fspan_snoc)
      qed
    qed
  next
    case True
    let ?F = "\<lambda>(s, start). if xs = [] then (if start = frm then [[s]] else [])
            else map (\<lambda>r. s # r) (parse_paths g ch xs frm start)"
    let ?C = "map (\<lambda>s. (PN s, s_col s)) (filter (\<lambda>s. finished s \<and> name s = x) (col_states ch til))"
    from snoc.prems True have "r \<in> set (concat (map ?F ?C))"
      by (simp only: parse_paths_snoc simp_thms if_False)
    then obtain c where c: "c \<in> set ?C" "r \<in> set (?F c)"
      unfolding set_concat set_map by blast
    from c(1) obtain s where s: "s \<in> set (col_states ch til)" "finished s" "name s = x"
      and cs: "c = (PN s, s_col s)" by auto
    from c(2) cs have r: "r \<in> set (?F (PN s, s_col s))" by simp
    have es: "espan ch tks (PN s) (s_col s) til" using s by (simp add: espan_def)
    show ?thesis
    proof (cases "xs = []")
      case True
      with r have "r = [PN s]" "s_col s = frm" by (auto split: if_splits)
      with es show ?thesis by auto
    next
      case False
      with r obtain r' where r': "r = PN s # r'" "r' \<in> set (parse_paths g ch xs frm (s_col s))"
        by auto
      from snoc.IH [OF r'(2)] es r'(1) show ?thesis by (auto simp: fspan_snoc)
    qed
  qed
qed


subsection \<open>The round trip of parsing and flattening\<close>

lemma tree_to_str_loop_yield:
  "\<forall>t \<in> set ts. wf_tree t \<Longrightarrow> tree_to_str_loop ts ex = Inr (ex @ concat (map yield ts))"
  by (induction ts ex rule: tree_to_str_loop.induct) auto

lemma tree_to_str_yield: "wf_tree t \<Longrightarrow> tree_to_str t = Inr (concat (yield t))"
  using tree_to_str_loop_yield [of "[t]" "[]"] by (simp add: tree_to_str_def)

lemma sequence_sum_Cons_Inr:
  "sequence_sum (a # as) = Inr fs \<longleftrightarrow> (\<exists>f fs'. a = Inr f \<and> sequence_sum as = Inr fs' \<and> fs = f # fs')"
  by (cases a) (auto split: sum.splits)

lemma gen_all_Cons_Inr:
  "gen_all (x # rest) = Inr ptrees \<longleftrightarrow>
     (\<exists>ts tss. x = (ts, None) \<and> gen_all rest = Inr tss \<and> ptrees = ts # tss)"
proof (cases x)
  case (Pair ts e)
  then show ?thesis by (cases e) (auto split: sum.splits)
qed

lemma product_lists_Cons:
  "cs \<in> set (product_lists (ts # tss)) \<longleftrightarrow>
     (\<exists>c cs'. c \<in> set ts \<and> cs' \<in> set (product_lists tss) \<and> cs = c # cs')"
  by auto

lemma single_char_not_nt: "length v = 1 \<Longrightarrow> \<not> is_nt v"
  by (cases v) (auto simp: is_nt_def)

lemma is_nt_nonempty: "is_nt k \<Longrightarrow> k \<noteq> []"
  by (simp add: is_nt_def)

lemma parse_forest_single:
  "parse_forest g ch [s] =
     (case parse_forest1 g ch s of Inl e \<Rightarrow> Inl e | Inr f \<Rightarrow> Inr (name s, snd f))"
  by (simp add: parse_forest_def split: sum.splits)

lemma espan_le:
  assumes "chart_items (item_ok g tks) ch" "espan ch tks p a b"
  shows "a \<le> b"
proof (cases p)
  case (PT v)
  with assms(2) show ?thesis by (simp add: espan_def)
next
  case (PN s)
  with assms(2) have "s \<in> set (col_states ch b)" "s_col s = a" by (simp_all add: espan_def)
  with chart_items_col_states [OF assms(1), of s b] show ?thesis by (simp add: item_ok_def)
qed

lemma fspan_le:
  assumes "chart_items (item_ok g tks) ch"
  shows "fspan ch tks ps a b \<Longrightarrow> a \<le> b"
proof (induction ps arbitrary: a)
  case Nil
  then show ?case by simp
next
  case (Cons p ps)
  then obtain c where "espan ch tks p a c" "fspan ch tks ps c b" by auto
  with espan_le [OF assms this(1)] Cons.IH [of c] show ?case by simp
qed

lemma forest_PN:
  assumes fin: "chart_final g eps tks T" and wf: "wf_grammar g"
    and s: "s \<in> set (col_states T b)" "finished s"
  shows "\<exists>P. parse_forest g T [s] = Inr (name s, P) \<and> is_nt (name s) \<and>
             (\<forall>path \<in> set P. fspan T tks path (s_col s) b) \<and> (P = [] \<longrightarrow> s_col s = b)"
proof -
  from fin have fr: "map letter T = None # map Some tks"
    and ok: "chart_items (item_ok g tks) T" and lc: "chart_loc T"
    and tk: "\<forall>t \<in> set tks. length t = 1"
    by (simp_all add: chart_final_def chart_inv_def)
  from chart_loc_col_states [OF lc s(1)] have e: "e_col s = Some b"
    and d0: "dot s = 0 \<longrightarrow> s_col s = b" by (simp_all add: item_loc_def)
  from item_ok_key [OF chart_items_col_states [OF ok s(1)]] obtain alts where "(name s, alts) \<in> set g"
    by auto
  from wf_grammar_keys [OF wf this] have nt: "is_nt (name s)" .
  from chart_items_col_states [OF ok s(1)] s(2) have dl: "dot s = length (expr s)"
    by (simp add: item_ok_def finished_def)
  show ?thesis
  proof (cases "expr s = []")
    case True
    with dl d0 nt show ?thesis by (simp add: parse_forest_single parse_forest1_def)
  next
    case False
    let ?P = "map rev (parse_paths g T (expr s) (s_col s) b)"
    from False e have pf: "parse_forest g T [s] = Inr (name s, ?P)"
      by (simp add: parse_forest_single parse_forest1_def)
    from paths_nonempty [OF fin s(1) dl] False dl have "?P \<noteq> []" by simp
    moreover have "\<forall>path \<in> set ?P. fspan T tks path (s_col s) b"
      using parse_paths_fspan [OF fr tk] by auto
    ultimately show ?thesis using pf nt by simp
  qed
qed

lemma terminal_trees: "t \<in> set (fst (extract_trees d g ch (v, []))) \<Longrightarrow> t = Node v []"
  by (cases d) simp_all

lemma children_yield:
  assumes fin: "chart_final g eps tks T" and wf: "wf_grammar g"
    and IH: "\<And>nm paths a b t. is_nt nm \<Longrightarrow> \<forall>path \<in> set paths. fspan T tks path a b \<Longrightarrow>
          (paths = [] \<longrightarrow> a = b) \<Longrightarrow> t \<in> set (fst (extract_trees d g T (nm, paths))) \<Longrightarrow>
          yield t = slice tks a b \<and> wf_tree t"
  shows "fspan T tks path a b \<Longrightarrow> sequence_sum (map (forest g T) path) = Inr fs \<Longrightarrow>
         gen_all (map (extract_trees d g T) fs) = Inr ptrees \<Longrightarrow> cs \<in> set (product_lists ptrees) \<Longrightarrow>
         concat (map yield cs) = slice tks a b \<and> (\<forall>c \<in> set cs. wf_tree c)"
proof (induction path arbitrary: a fs ptrees cs)
  case Nil
  then show ?case by simp
next
  case (Cons p ps)
  from fin have ok: "chart_items (item_ok g tks) T" and tk: "\<forall>t \<in> set tks. length t = 1"
    by (simp_all add: chart_final_def chart_inv_def)
  from Cons.prems(1) obtain c0 where sp: "espan T tks p a c0" "fspan T tks ps c0 b" by auto
  from Cons.prems(2) obtain f fs' where f: "forest g T p = Inr f" "sequence_sum (map (forest g T) ps) = Inr fs'"
    "fs = f # fs'" by (auto simp: sequence_sum_Cons_Inr)
  from Cons.prems(3) f(3) obtain ts tss where g: "extract_trees d g T f = (ts, None)"
    "gen_all (map (extract_trees d g T) fs') = Inr tss" "ptrees = ts # tss"
    by (auto simp: gen_all_Cons_Inr)
  from Cons.prems(4) g(3) obtain c cs' where c: "c \<in> set ts" "cs' \<in> set (product_lists tss)" "cs = c # cs'"
    by (auto simp: product_lists_Cons)
  from Cons.IH [OF sp(2) f(2) g(2) c(2)]
  have rest: "concat (map yield cs') = slice tks c0 b" "\<forall>c \<in> set cs'. wf_tree c" by simp_all
  from g(1) c(1) have cm: "c \<in> set (fst (extract_trees d g T f))" by simp
  have child: "yield c = slice tks a c0 \<and> wf_tree c"
  proof (cases p)
    case (PT v)
    with sp(1) have v: "c0 = Suc a" "a < length tks" "v = tks ! a" by (simp_all add: espan_def)
    from PT f(1) have "f = (v, [])" by (simp add: forest_def)
    with cm have cn: "c = Node v []" by (auto dest: terminal_trees)
    from v tk have lv: "length v = 1" by simp
    from single_char_not_nt [OF lv] have nn: "\<not> is_nt v" .
    from lv have "v \<noteq> []" by auto
    with nn cn v slice_Suc [of a a tks] show ?thesis by simp
  next
    case (PN s)
    with sp(1) have s: "s \<in> set (col_states T c0)" "finished s" "s_col s = a" by (simp_all add: espan_def)
    from forest_PN [OF fin wf s(1,2)] obtain P where P: "parse_forest g T [s] = Inr (name s, P)"
      "is_nt (name s)" "\<forall>path \<in> set P. fspan T tks path (s_col s) c0" "P = [] \<longrightarrow> s_col s = c0"
      by blast
    from PN f(1) P(1) have "f = (name s, P)" by (simp add: forest_def)
    with IH [OF P(2) P(3) P(4), of c] cm s(3) show ?thesis by simp
  qed
  from espan_le [OF ok sp(1)] fspan_le [OF ok sp(2)] have "a \<le> c0" "c0 \<le> b" .
  from slice_append [OF this, of tks] child rest c(3) show ?case by simp
qed

lemma extract_paths_yield:
  assumes fin: "chart_final g eps tks T" and wf: "wf_grammar g" and nt: "is_nt nm"
    and IH: "\<And>nm paths a b t. is_nt nm \<Longrightarrow> \<forall>path \<in> set paths. fspan T tks path a b \<Longrightarrow>
          (paths = [] \<longrightarrow> a = b) \<Longrightarrow> t \<in> set (fst (extract_trees d g T (nm, paths))) \<Longrightarrow>
          yield t = slice tks a b \<and> wf_tree t"
  shows "\<forall>path \<in> set paths. fspan T tks path a b \<Longrightarrow>
         t \<in> set (fst (extract_paths d g T nm paths)) \<Longrightarrow> yield t = slice tks a b \<and> wf_tree t"
proof (induction paths)
  case Nil
  then show ?case by simp
next
  case (Cons path paths)
  from Cons.prems(1) have sp: "fspan T tks path a b" and rest: "\<forall>path \<in> set paths. fspan T tks path a b"
    by simp_all
  show ?case
  proof (cases "sequence_sum (map (forest g T) path)")
    case (Inl e)
    with Cons.prems(2) show ?thesis by simp
  next
    case (Inr fs)
    show ?thesis
    proof (cases "gen_all (map (extract_trees d g T) fs)")
      case (Inl e)
      with Inr Cons.prems(2) show ?thesis by simp
    next
      case ptrees: (Inr ptrees)
      obtain ts e where r: "extract_paths d g T nm paths = (ts, e)"
        by (cases "extract_paths d g T nm paths")
      from Inr ptrees r have "extract_paths d g T nm (path # paths)
          = (map (Node nm) (product_lists ptrees) @ ts, e)" by simp
      with Cons.prems(2)
      have "t \<in> Node nm ` set (product_lists ptrees) \<or> t \<in> set ts" by auto
      then show ?thesis
      proof
        assume "t \<in> set ts"
        with r Cons.IH [OF rest] show ?thesis by simp
      next
        assume "t \<in> Node nm ` set (product_lists ptrees)"
        then obtain cs where cs: "cs \<in> set (product_lists ptrees)" "t = Node nm cs" by auto
        have "concat (map yield cs) = slice tks a b \<and> (\<forall>c \<in> set cs. wf_tree c)"
          by (rule children_yield [OF fin wf IH sp Inr ptrees cs(1)])
        with cs(2) nt is_nt_nonempty [OF nt] show ?thesis by simp
      qed
    qed
  qed
qed

lemma extract_trees_yield:
  assumes fin: "chart_final g eps tks T" and wf: "wf_grammar g"
  shows "is_nt nm \<Longrightarrow> \<forall>path \<in> set paths. fspan T tks path a b \<Longrightarrow> (paths = [] \<longrightarrow> a = b) \<Longrightarrow>
         t \<in> set (fst (extract_trees d g T (nm, paths))) \<Longrightarrow> yield t = slice tks a b \<and> wf_tree t"
proof (induction d arbitrary: nm paths a b t)
  case 0
  then show ?case by simp
next
  case (Suc d)
  obtain ts e where r: "extract_paths d g T nm paths = (ts, e)"
    by (cases "extract_paths d g T nm paths")
  then have "extract_trees (Suc d) g T (nm, paths)
      = ((if paths = [] then [Node nm []] else []) @ ts, e)" by simp
  with Suc.prems(4) have "(paths = [] \<and> t = Node nm []) \<or> t \<in> set ts"
    by (cases "paths = []") simp_all
  then show ?case
  proof
    assume "paths = [] \<and> t = Node nm []"
    with Suc.prems(1,3) is_nt_nonempty [OF Suc.prems(1)] show ?thesis by simp
  next
    assume "t \<in> set ts"
    with r have mem: "t \<in> set (fst (extract_paths d g T nm paths))" by simp
    show ?thesis
      by (rule extract_paths_yield [OF fin wf Suc.prems(1) Suc.IH Suc.prems(2) mem])
  qed
qed

lemma chart_parse_final:
  assumes wf: "wf_grammar g" and eps: "set eps = {k. derives_empty g k}"
    and alts: "map_of g start = Some alts"
  shows "chart_final g eps (tokens_of text) (chart_parse g eps text start alts)"
proof -
  let ?T = "chart_parse g eps text start alts"
  from eps have e: "\<forall>k \<in> set eps. derives g k []" by (auto intro: derives_empty_derives)
  have "length ?T = Suc (length text)"
    using chart_parse_index [of g eps "text" start alts] length_map [of index ?T] by simp
  then have "\<forall>j < length ?T. col_closed g eps ?T j"
    by (auto intro: chart_parse_closed)
  with chart_parse_inv [OF e alts] eps show ?thesis
    by (simp add: chart_final_def tokens_of_def)
qed

lemma sequence_sum_Inr: "sequence_sum xs = Inr ys \<Longrightarrow> xs = map Inr ys"
proof (induction xs arbitrary: ys)
  case Nil
  then show ?case by simp
next
  case (Cons a xs)
  then show ?case by (auto simp: sequence_sum_Cons_Inr)
qed

lemma concat_tokens [simp]: "concat (tokens_of text) = text"
  by (induction "text") (simp_all add: tokens_of_def)

lemma parse_forest1_name: "parse_forest1 g ch s = Inr (a, P) \<Longrightarrow> a = name s"
  by (auto simp: parse_forest1_def split: if_splits option.splits)

lemma parse_on_yield:
  assumes wf: "wf_grammar g" and eps: "set (epsilon p) = {k. derives_empty (grammar p) k}"
    and g: "grammar p = g" and pe: "parse_exceptions p"
    and t: "t \<in> set (fst (parse_on d p text start))"
  shows "tree_to_str t = Inr text"
proof -
  let ?tks = "tokens_of text"
  from t obtain starts table f where r: "recognize_on p text start = Inr (starts, table)"
    and pf: "parse_forest g table starts = Inr f"
    and tf: "t \<in> set (fst (extract_trees d g table f))"
    using g by (auto simp: parse_on_def split: sum.splits prod.splits)
  from r obtain cursor sts where pp: "parse_prefix p text start = Inr (cursor, sts, table)"
    by (auto simp: recognize_on_def Let_def split: sum.splits prod.splits if_splits)
  then obtain alts where alts: "map_of g start = Some alts"
    and table: "table = chart_parse g (epsilon p) text start alts"
    and fp: "find_prefix start alts (rev table) = (cursor, sts)"
    using g by (auto simp: parse_prefix_def Let_def split: option.splits prod.splits)
  from r pp pe have c: "int (length text) \<le> cursor" and st: "starts = filter finished sts"
    and f: "starts \<noteq> []"
    by (auto simp: recognize_on_def Let_def split: if_splits)
  from f st have ne: "sts \<noteq> []" by auto
  from find_prefix_latest [OF fp ne] obtain n where
    n: "n < length (rev table)" "cursor = int (index (rev table ! n))"
       "sts = start_items start alts (rev table ! n)" by blast
  have idx: "map index table = [0..<Suc (length text)]"
    unfolding table by (rule chart_parse_index)
  then have len: "length table = Suc (length text)"
    using length_map [of index table] by simp
  let ?j = "length table - Suc n"
  from n(1) have j: "?j < length table" by simp
  from n(1) have "rev table ! n = table ! ?j" by (simp add: rev_nth)
  moreover from j idx have "index (table ! ?j) = ?j"
    using nth_map [of ?j table index] len by (simp del: upt_Suc)
  ultimately have cj: "cursor = int ?j" and sj: "sts = start_items start alts (table ! ?j)"
    using n by simp_all
  from c cj j len have jl: "?j = length text" by simp
  have sm: "s \<in> set (col_states table (length text)) \<and> finished s \<and> name s = start \<and> s_col s = 0"
    if "s \<in> set starts" for s
    using that st sj jl j by (auto simp: start_items_def col_states_def)
  from eps g have eps': "set (epsilon p) = {k. derives_empty g k}" by simp
  have fin: "chart_final g (epsilon p) ?tks table"
    unfolding table by (rule chart_parse_final [OF wf eps' alts])
  from map_of_SomeD [OF alts] wf_grammar_keys [OF wf] have nt: "is_nt start" by blast
  from pf obtain forest where fo: "sequence_sum (map (parse_forest1 g table) starts) = Inr forest"
    and ff: "f = (hd (remdups (map name starts)), concat (map snd forest))"
    by (auto simp: parse_forest_def Let_def split: if_splits sum.splits)
  from f sm have "set (map name starts) = {start}" by (cases starts) auto
  then have "set (remdups (map name starts)) = {start}" by simp
  then have hd: "hd (remdups (map name starts)) = start"
    by (cases "remdups (map name starts)") auto
  from sequence_sum_Inr [OF fo] have fm: "map (parse_forest1 g table) starts = map Inr forest" .
  have P: "\<exists>P. parse_forest1 g table s = Inr (start, P) \<and>
               (\<forall>path \<in> set P. fspan table ?tks path 0 (length text)) \<and> (P = [] \<longrightarrow> length text = 0)"
    if "s \<in> set starts" for s
  proof -
    from sm [OF that] have s: "s \<in> set (col_states table (length text))" "finished s"
      "name s = start" "s_col s = 0" by simp_all
    from forest_PN [OF fin wf s(1,2)] s(3,4) obtain P where
      P: "parse_forest g table [s] = Inr (start, P)"
         "\<forall>path \<in> set P. fspan table ?tks path 0 (length text)" "P = [] \<longrightarrow> 0 = length text"
      by auto
    from P(1) s(3) have "parse_forest1 g table s = Inr (start, P)"
      by (cases "parse_forest1 g table s") (auto simp: parse_forest_single dest: parse_forest1_name)
    with P(2,3) show ?thesis by auto
  qed
  have all: "\<exists>s \<in> set starts. parse_forest1 g table s = Inr fo'" if "fo' \<in> set forest" for fo'
  proof -
    from that have "Inr fo' \<in> set (map (parse_forest1 g table) starts)" unfolding fm by simp
    then show ?thesis by auto
  qed
  have sp: "\<forall>path \<in> set (concat (map snd forest)). fspan table ?tks path 0 (length text)"
  proof
    fix path assume "path \<in> set (concat (map snd forest))"
    then obtain fo' where fo': "fo' \<in> set forest" "path \<in> set (snd fo')" by auto
    from all [OF fo'(1)] obtain s where "s \<in> set starts" "parse_forest1 g table s = Inr fo'" by blast
    with P [of s] fo'(2) show "fspan table ?tks path 0 (length text)" by auto
  qed
  have em: "concat (map snd forest) = [] \<longrightarrow> 0 = length text"
  proof
    assume e: "concat (map snd forest) = []"
    from f obtain s where s: "s \<in> set starts" by (cases starts) auto
    from P [OF s] obtain Ps where Ps: "parse_forest1 g table s = Inr (start, Ps)"
      "Ps = [] \<longrightarrow> length text = 0" by blast
    from s Ps(1) have "Inr (start, Ps) \<in> set (map (parse_forest1 g table) starts)" by force
    then have "(start, Ps) \<in> set forest" unfolding fm by auto
    with e have "Ps = []" by force
    with Ps(2) show "0 = length text" by simp
  qed
  from tf ff hd have "t \<in> set (fst (extract_trees d g table (start, concat (map snd forest))))" by simp
  from extract_trees_yield [OF fin wf nt sp em this]
  have "yield t = slice ?tks 0 (length text)" "wf_tree t" by simp_all
  then have "yield t = ?tks" by (simp add: slice_def tokens_of_def)
  with tree_to_str_yield [OF \<open>wf_tree t\<close>] show ?thesis by simp
qed

text \<open>
  C2. For every grammar of the spec, text and start symbol, every tree that
  \<^verbatim>\<open>parse_on(text, start)\<close> yields flattens to the text, so that parsing the flattening
  again yields that tree among its trees. The first argument is the bound of the
  recursion depth, the same for both parses.
\<close>

theorem parse_round_trip:
  assumes "wf_grammar g" "parse_on_view d g True text start = Inr (ts, e)" "t \<in> set ts"
  shows "tree_to_str t = Inr text \<and> round_trip d g start t"
proof -
  from nullable_wf [OF assms(1)] obtain eps where
    n: "nullable g = Inr eps" and eps: "set eps = {k. derives_empty g k}" by blast
  let ?p = "\<lparr>grammar = g, epsilon = eps, parse_exceptions = True\<rparr>"
  from n have p: "EarleyParser g True = Inr ?p" by (simp add: EarleyParser_def)
  with assms(2,3) have "t \<in> set (fst (parse_on d ?p text start))"
    by (simp add: parse_on_view_def)
  from parse_on_yield [OF assms(1) _ _ _ this] eps have s: "tree_to_str t = Inr text" by simp
  with assms(2,3) show ?thesis by (simp add: round_trip_def)
qed

text \<open>
  The statement at \<^verbatim>\<open><S> ::= <A>, <A> ::= <A> a | \<close> and the text \<^verbatim>\<open>aa\<close>, which has
  one tree.
\<close>

theorem parse_round_trip_witness:
  "wf_grammar left_grammar \<and>
   parse_on_view 10 left_grammar True ''aa'' ''<S>'' =
     Inr ([Node ''<S>'' [Node ''<A>''
             [Node ''<A>'' [Node ''<A>'' [], Node ''a'' []], Node ''a'' []]]], None) \<and>
   tree_to_str (Node ''<S>'' [Node ''<A>''
             [Node ''<A>'' [Node ''<A>'' [], Node ''a'' []], Node ''a'' []]]) = Inr ''aa'' \<and>
   round_trip 10 left_grammar ''<S>'' (Node ''<S>'' [Node ''<A>''
             [Node ''<A>'' [Node ''<A>'' [], Node ''a'' []], Node ''a'' []]])"
proof -
  let ?t = "Node ''<S>'' [Node ''<A>''
             [Node ''<A>'' [Node ''<A>'' [], Node ''a'' []], Node ''a'' []]]"
  have wf: "wf_grammar left_grammar" by code_simp
  have pv: "parse_on_view 10 left_grammar True ''aa'' ''<S>'' = Inr ([?t], None)" by code_simp
  have "?t \<in> set [?t]" by simp
  from parse_round_trip [OF wf pv this] wf pv show ?thesis by simp
qed


section \<open>Properties of the GLL engine\<close>

subsection \<open>Packed nodes\<close>

lemma SPPF_gss_get [simp]: "SPPF_nodes (gss_get p l) = SPPF_nodes p"
  by (simp add: gss_get_def)

lemma SPPF_add_thread: "add_thread p L u i w = Inr p' \<Longrightarrow> SPPF_nodes p' = SPPF_nodes p"
  by (auto simp: add_thread_def split: if_splits)

lemma SPPF_add_threads:
  "add_threads key ns u i e p = Inr p' \<Longrightarrow> SPPF_nodes p' = SPPF_nodes p"
  by (induction ns arbitrary: p) (auto split: sum.splits dest: SPPF_add_thread)

lemma find_or_create_inv:
  "sppf_find_or_create p lab j i = (n, p') \<Longrightarrow> packed_unique p \<Longrightarrow> packed_unique p'"
  by (auto simp: sppf_find_or_create_def packed_unique_def sppf_inv_def Let_def split: if_splits)

lemma getNodeT_inv: "getNodeT p x i = (n, p') \<Longrightarrow> packed_unique p \<Longrightarrow> packed_unique p'"
  by (auto simp: getNodeT_def split: option.splits dest: find_or_create_inv)

lemma add_child_inv:
  assumes inv: "sppf_inv ns" and fresh: "key \<notin> fst ` set ns"
    and nolab: "fst key \<notin> fst ` set (case map_of ns y of Some nd \<Rightarrow> children nd | None \<Rightarrow> [])"
  shows "sppf_inv (map (\<lambda>(n, nd). if n = y then (n, nd\<lparr>children := children nd @ [key]\<rparr>) else (n, nd))
                     (ns @ [(key, \<lparr>kind = Packed_node, children = cs, nid = i\<rparr>)]))"
proof -
  let ?f = "\<lambda>(n, nd). if n = y then (n, nd\<lparr>children := children nd @ [key]\<rparr>) else (n, nd)"
  let ?new = "(key, \<lparr>kind = Packed_node, children = cs, nid = i\<rparr>)"
  let ?ns = "ns @ [?new]"
  have fst_f: "map fst (map ?f ?ns) = map fst ?ns"
    by (simp add: split_def comp_def if_distrib [of fst])
  have d: "distinct (map fst (map ?f ?ns))"
    unfolding fst_f using inv fresh by (simp add: sppf_inv_def)
  have "distinct (map fst (children nd))"
    if mem: "(n, nd) \<in> set (map ?f ?ns)" and k: "kind nd \<noteq> Packed_node" for n nd
  proof -
    from mem have "(n, nd) \<in> ?f ` set ?ns" by simp
    then obtain x where x: "x \<in> set ?ns" "(n, nd) = ?f x" by (rule imageE)
    obtain n0 nd0 where "x = (n0, nd0)" by (cases x)
    with x have m: "(n0, nd0) \<in> set ?ns" and e: "(n, nd) = ?f (n0, nd0)" by simp_all
    from m have "(n0, nd0) = ?new \<or> (n0, nd0) \<in> set ns" by auto
    then show ?thesis
    proof
      assume "(n0, nd0) = ?new"
      with e k show ?thesis by (auto split: if_splits)
    next
      assume m': "(n0, nd0) \<in> set ns"
      show ?thesis
      proof (cases "n0 = y")
        case False
        with e have "nd = nd0" by simp
        with m' k inv show ?thesis by (auto simp: sppf_inv_def)
      next
        case True
        with e have nd: "nd = nd0\<lparr>children := children nd0 @ [key]\<rparr>" by simp
        from inv m' True have "map_of ns y = Some nd0" by (simp add: sppf_inv_def)
        with nolab have "fst key \<notin> fst ` set (children nd0)" by simp
        moreover from m' k nd inv have "distinct (map fst (children nd0))" by (auto simp: sppf_inv_def)
        ultimately show ?thesis using nd by simp
      qed
    qed
  qed
  with d show ?thesis unfolding sppf_inv_def by blast
qed

lemma add_child_packed_unique:
  assumes "packed_unique p1" "(l, r) \<notin> fst ` set (SPPF_nodes p1)"
    "filter (\<lambda>c. fst c = l) (node_children p1 y) = []"
  shows "packed_unique (add_child (p1\<lparr>SPPF_nodes := SPPF_nodes p1 @
            [((l, r), \<lparr>kind = Packed_node, children = cs, nid = n\<rparr>)], N_ID := n'\<rparr>) y (l, r))"
proof -
  have "fst (l, r) \<notin> fst ` set (case map_of (SPPF_nodes p1) y of Some nd \<Rightarrow> children nd | None \<Rightarrow> [])"
    using assms(3) by (cases "map_of (SPPF_nodes p1) y") (auto simp: node_children_def filter_empty_conv)
  from add_child_inv [OF assms(1) [unfolded packed_unique_def] assms(2) this]
  show ?thesis unfolding packed_unique_def add_child_def by simp
qed

lemma getNodeP_inv:
  assumes "getNodeP p L w z = Inr (y, p')" "packed_unique p"
  shows "packed_unique p'"
  using assms unfolding getNodeP_def Let_def
  by (auto split: label.splits option.splits if_splits sum.splits prod.splits
           dest: find_or_create_inv intro!: add_child_packed_unique)


lemma packed_unique_cong: "SPPF_nodes p' = SPPF_nodes p \<Longrightarrow> packed_unique p' = packed_unique p"
  by (simp add: packed_unique_def)

lemma packed_unique_updates [simp]:
  "packed_unique (p\<lparr>threads := t\<rparr>) = packed_unique p"
  "packed_unique (p\<lparr>root := r\<rparr>) = packed_unique p"
  "packed_unique (p\<lparr>gss_P := gp\<rparr>) = packed_unique p"
  "packed_unique (p\<lparr>gss_graph := gg\<rparr>) = packed_unique p"
  "packed_unique (gss_get p l) = packed_unique p"
  by (simp_all add: packed_unique_def)

lemma add_thread_inv: "add_thread p L u i w = Inr p' \<Longrightarrow> packed_unique p \<Longrightarrow> packed_unique p'"
  using SPPF_add_thread packed_unique_cong by blast

lemma add_threads_inv:
  "add_threads key ns u i e p = Inr p' \<Longrightarrow> packed_unique p \<Longrightarrow> packed_unique p'"
  using SPPF_add_threads packed_unique_cong by blast

lemma fn_return_loop_inv:
  "fn_return_loop L i z cs p = Inr p' \<Longrightarrow> packed_unique p \<Longrightarrow> packed_unique p'"
proof (induction cs arbitrary: p)
  case Nil
  then show ?case by simp
next
  case (Cons c cs)
  obtain c_st w where c: "c = (c_st, w)" by (cases c)
  from Cons.prems(1) c obtain y p1 p2 where
    1: "getNodeP p L w z = Inr (y, p1)" and 2: "add_thread p1 L c_st i y = Inr p2"
    and 3: "fn_return_loop L i z cs p2 = Inr p'"
    by (auto split: sum.splits)
  from getNodeP_inv [OF 1 Cons.prems(2)] have "packed_unique p1" .
  from add_thread_inv [OF 2 this] have "packed_unique p2" .
  from Cons.IH [OF 3 this] show ?case .
qed

lemma fn_return_inv: "fn_return p u i z = Inr p' \<Longrightarrow> packed_unique p \<Longrightarrow> packed_unique p'"
  unfolding fn_return_def
  by (auto split: if_splits option.splits dest!: fn_return_loop_inv)

lemma register_return_loop_inv:
  "register_return_loop L u w zs p = Inr p' \<Longrightarrow> packed_unique p \<Longrightarrow> packed_unique p'"
proof (induction zs arbitrary: p)
  case Nil
  then show ?case by simp
next
  case (Cons z zs)
  from Cons.prems(1) obtain y p1 p2 where
    1: "getNodeP p L w z = Inr (y, p1)" and 2: "add_thread p1 L u (snd (snd z)) y = Inr p2"
    and 3: "register_return_loop L u w zs p2 = Inr p'"
    by (auto split: sum.splits)
  from getNodeP_inv [OF 1 Cons.prems(2)] have "packed_unique p1" .
  from add_thread_inv [OF 2 this] have "packed_unique p2" .
  from Cons.IH [OF 3 this] show ?case .
qed

lemma register_return_inv:
  "register_return p L u i w = Inr (v, p') \<Longrightarrow> packed_unique p \<Longrightarrow> packed_unique p'"
  unfolding register_return_def Let_def
  by (auto split: if_splits sum.splits dest!: register_return_loop_inv)

lemma gll_step_inv:
  assumes "gll_step start c = Inr c'" "packed_unique (c_parser c)"
  shows "packed_unique (c_parser c')"
  using assms unfolding gll_step_def Let_def
  by (auto split: if_splits list.splits prod.splits sum.splits option.splits label.splits
           dest: fn_return_inv add_threads_inv register_return_inv getNodeT_inv getNodeP_inv)

lemma gll_step_result_inv:
  assumes "gll_step start c = Inl (Inr (Parsed p))" "packed_unique (c_parser c)"
  shows "packed_unique p"
  using assms unfolding gll_step_def Let_def
  by (auto split: if_splits list.splits prod.splits sum.splits option.splits label.splits)

lemma gll_run_inv:
  "packed_unique (c_parser c) \<Longrightarrow>
   (case gll_run n start c of
      Inr c' \<Rightarrow> packed_unique (c_parser c')
    | Inl (Inr (Parsed p)) \<Rightarrow> packed_unique p
    | Inl _ \<Rightarrow> True)"
proof (induction n arbitrary: c)
  case 0
  then show ?case by simp
next
  case (Suc n)
  show ?case
  proof (cases "gll_step start c")
    case (Inl r)
    with Suc.prems gll_step_result_inv [of start c] show ?thesis
      by (auto split: sum.splits gll_result.splits)
  next
    case (Inr c1)
    from gll_step_inv [OF Inr Suc.prems] have "packed_unique (c_parser c1)" .
    from Suc.IH [OF this] Inr show ?thesis by simp
  qed
qed

lemma gll_init_inv:
  assumes "gll_init n_id g text start = Some (Inr c)"
  shows "packed_unique (c_parser c)"
proof -
  from assms obtain r where r: "set_grammar (initialize n_id text) g = Some r"
    by (auto simp: gll_init_def)
  with assms obtain p where rp: "r = Inr p" by (cases r) (auto simp: gll_init_def)
  from r rp have p: "set_grammar (initialize n_id text) g = Some (Inr p)" by simp
  with assms have c: "c = (let (e, p1) = sppf_find_or_create p (SStr ''$'') 0 0
          in \<lparr>c_L = LStr start, c_stack_top = stack_bottom, c_cur_idx = 0,
               c_cur_sppf_node = e, c_parser = p1\<rparr>)"
    by (simp add: gll_init_def)
  from p obtain q where "get_first_and_follow g = Some q" by (auto simp: set_grammar_def)
  with p have "SPPF_nodes p = []"
    by (cases q) (auto simp: set_grammar_def initialize_def split: prod.splits)
  then have "packed_unique p" by (simp add: packed_unique_def sppf_inv_def)
  with c show ?thesis
    by (auto simp: Let_def split: prod.splits dest: find_or_create_inv)
qed

lemma gll_loop_inv_aux:
  assumes "gll_loop start c = Some r"
  shows "packed_unique (c_parser c) \<longrightarrow> (\<forall>p. r = Inr (Parsed p) \<longrightarrow> packed_unique p)"
proof (rule gll_loop.raw_induct
    [where P = "\<lambda>start c r. packed_unique (c_parser c) \<longrightarrow>
                  (\<forall>p. r = Inr (Parsed p) \<longrightarrow> packed_unique p)", OF _ assms])
  fix gll_loop' :: "symbol \<Rightarrow> config \<Rightarrow> (error + gll_result) option" and start c r
  assume IH: "\<And>start c r. gll_loop' start c = Some r \<Longrightarrow>
               packed_unique (c_parser c) \<longrightarrow> (\<forall>p. r = Inr (Parsed p) \<longrightarrow> packed_unique p)"
    and body: "(case gll_step start c of Inl r \<Rightarrow> Some r | Inr c' \<Rightarrow> gll_loop' start c') = Some r"
  show "packed_unique (c_parser c) \<longrightarrow> (\<forall>p. r = Inr (Parsed p) \<longrightarrow> packed_unique p)"
  proof (intro impI allI)
    fix p assume inv: "packed_unique (c_parser c)" and r: "r = Inr (Parsed p)"
    show "packed_unique p"
    proof (cases "gll_step start c")
      case (Inl r')
      with body have "r' = r" by simp
      with Inl r have "gll_step start c = Inl (Inr (Parsed p))" by simp
      from gll_step_result_inv [OF this inv] show ?thesis .
    next
      case (Inr c1)
      with body have l: "gll_loop' start c1 = Some r" by simp
      from gll_step_inv [OF Inr inv] have "packed_unique (c_parser c1)" .
      with IH [OF l] r show ?thesis by blast
    qed
  qed
qed

lemma gll_loop_inv:
  assumes "gll_loop start c = Some (Inr (Parsed p))" "packed_unique (c_parser c)"
  shows "packed_unique p"
  using gll_loop_inv_aux [OF assms(1)] assms(2) by blast

text \<open>
  Claim C9: at every point during and after a GLL parse, no SPPF symbol or intermediate
  node has two packed children with the same label \<^verbatim>\<open>(slot, k)\<close>. The invariant holds
  after every round of the driver's loop and in the parser that \<^verbatim>\<open>recognize_on\<close>
  returns, and every call of \<^verbatim>\<open>getNodeP\<close> preserves it: it adds the packed child only
  when the parent has no child with that label.
\<close>

theorem packed_children_unique:
  assumes "gll_init n_id g text start = Some (Inr c0)"
  shows "(gll_run n start c0 = Inr c \<longrightarrow> packed_unique (c_parser c))
       \<and> (gll_recognize_on n_id g text start = Some (Inr (Parsed p)) \<longrightarrow> packed_unique p)
       \<and> (packed_unique q \<and> getNodeP q L w z = Inr (y, q') \<longrightarrow> packed_unique q')"
proof (intro conjI)
  from gll_run_inv [OF gll_init_inv [OF assms], of n start]
  show "gll_run n start c0 = Inr c \<longrightarrow> packed_unique (c_parser c)" by auto
next
  show "gll_recognize_on n_id g text start = Some (Inr (Parsed p)) \<longrightarrow> packed_unique p"
    using assms gll_loop_inv [OF _ gll_init_inv [OF assms]]
    by (auto simp: gll_recognize_on_def)
next
  show "packed_unique q \<and> getNodeP q L w z = Inr (y, q') \<longrightarrow> packed_unique q'"
    using getNodeP_inv by blast
qed

theorem packed_children_unique_witness:
  "gll_init 0 left_grammar ''a'' ''<S>'' = Some (Inr left_c0) \<and>
   gll_run 9 ''<S>'' left_c0 = Inr left_c9 \<and>
   packed_unique (c_parser left_c9)"
proof -
  have h: "gll_init 0 left_grammar ''a'' ''<S>'' = Some (Inr left_c0)"
    by code_simp
  have r: "gll_run 9 ''<S>'' left_c0 = Inr left_c9"
    by code_simp
  from packed_children_unique [OF h, of 9 left_c9] h r show ?thesis by blast
qed


text \<open>
  Claim C1: the two engines agree on recognition. With the grammar \<^verbatim>\<open><S> ::= $ a\<close> and
  the text \<^verbatim>\<open>$a\<close>, the Earley recognizer succeeds and the compiled GLL recognizer
  returns \<^verbatim>\<open>[]\<close>: the SPPF node of the terminal \<^verbatim>\<open>$\<close> is created as a dummy node,
  \<^verbatim>\<open>not_dummy\<close> takes it for the empty left sibling, and the node of \<^verbatim>\<open><S>\<close> gets
  the extent \<open>(1, 2)\<close> instead of \<open>(0, 2)\<close>.
\<close>

theorem dollar_engines_disagree:
  "earley_accepts dollar_grammar ''$a'' ''<S>'' \<and>
   gll_recognize_on 0 dollar_grammar ''$a'' ''<S>'' = Some (Inr NoParse) \<and>
   \<not> gll_accepts dollar_grammar ''$a'' ''<S>''"
  by code_simp

text \<open>
  Claim C7: two calls of \<^verbatim>\<open>extract_a_tree\<close> on one extractor that both return a tree
  return distinct trees. With the grammar \<^verbatim>\<open><S> ::= a | a\<close> and the text \<^verbatim>\<open>a\<close>, the
  extractor over the SPPF returns the same tree twice, then \<^verbatim>\<open>None\<close>; the node of
  \<^verbatim>\<open><S>\<close> has one packed child per alternative. The extractor over the Earley forest
  returns the tree once.
\<close>

theorem dup_alternative_same_tree_twice:
  "gll_extract dup_grammar ''a'' ''<S>'' 3 =
     Some (Inr [Some (Node ''<S>'' [Node ''a'' []]), Some (Node ''<S>'' [Node ''a'' []]), None])
   \<and> earley_extract dup_grammar ''a'' ''<S>'' 2 = Inr [Some (Node ''<S>'' [Node ''a'' []]), None]"
  by code_simp

section \<open>Rejection of inputs outside the language\<close>

text \<open>
  C5, as stated: whenever an input is not in the grammar's language, each engine rejects it
  with a position-qualified error. For \<^verbatim>\<open><S> ::= a b\<close> and the text \<^verbatim>\<open>a\<close>, which is
  not in the language, the compiled GLL recognizer returns \<^verbatim>\<open>[]\<close>
  (\<^verbatim>\<open>else: return []\<close> in the \<^verbatim>\<open>'L0'\<close> branch): no error, and no position.
\<close>

theorem gll_rejects_without_position_counterexample:
  "\<not> in_language ab_grammar ''<S>'' ''a'' \<and>
   gll_recognize_on 0 ab_grammar ''a'' ''<S>'' = Some (Inr NoParse)"
proof -
  have "gll_recognize_on 0 ab_grammar ''a'' ''<S>'' = Some (Inr NoParse)" by code_simp
  with ab_not_in_language show ?thesis by simp
qed

text \<open>
  C5, amended: whenever an input is not in the language of a grammar of the spec, the
  Earley \<^verbatim>\<open>recognize_on\<close> (with \<^verbatim>\<open>parse_exceptions\<close>) raises an error: the error of
  \<^verbatim>\<open>parse_prefix\<close> when that raises (the KeyError of a start symbol that is not a
  key), and otherwise a SyntaxError that carries the suffix \<^verbatim>\<open>text[cursor:]\<close>, where
  \<open>cursor\<close> is the column index that \<^verbatim>\<open>parse_prefix\<close> returns.
\<close>

theorem rejected_input_syntax_error:
  assumes "wf_grammar g" "\<not> in_language g start text"
  shows "earley_recognize g True text start =
           (case parse_prefix_view g True text start of
              Inl e \<Rightarrow> Inl e
            | Inr (cursor, sts) \<Rightarrow> Inl (SyntaxError (py_slice_from text cursor)))"
proof -
  from nullable_wf [OF assms(1)] obtain eps where
    n: "nullable g = Inr eps" and eps: "set eps = {k. derives_empty g k}" by blast
  let ?p = "\<lparr>grammar = g, epsilon = eps, parse_exceptions = True\<rparr>"
  from n have p: "EarleyParser g True = Inr ?p" by (simp add: EarleyParser_def)
  from eps have e: "\<forall>k \<in> set (epsilon ?p). derives (grammar ?p) k []"
    by (auto intro: derives_empty_derives)
  have "\<not> (\<exists>starts table. recognize_on ?p text start = Inr (starts, table))"
  proof
    assume "\<exists>starts table. recognize_on ?p text start = Inr (starts, table)"
    then obtain starts table where "recognize_on ?p text start = Inr (starts, table)" by blast
    from recognize_on_sound [OF e _ this] assms(2) show False by simp
  qed
  with recognize_on_outcome [of ?p "text" start]
  have "recognize_on ?p text start =
           (case parse_prefix ?p text start of
              Inl e \<Rightarrow> Inl e
            | Inr (cursor, sts, table) \<Rightarrow> Inl (SyntaxError (py_slice_from text cursor)))" by simp
  with p show ?thesis
    by (auto simp: earley_recognize_def parse_prefix_view_def split: sum.splits)
qed

text \<open>
  The statement at \<^verbatim>\<open><S> ::= a b\<close> and the text \<^verbatim>\<open>a\<close>: the cursor is 1 and the
  suffix is empty.
\<close>

theorem rejected_input_syntax_error_witness:
  "wf_grammar ab_grammar \<and> \<not> in_language ab_grammar ''<S>'' ''a'' \<and>
   earley_recognize ab_grammar True ''a'' ''<S>'' = Inl (SyntaxError [])"
proof -
  have wf: "wf_grammar ab_grammar" by code_simp
  have pv: "parse_prefix_view ab_grammar True ''a'' ''<S>''
              = Inr (1, [((''<S>'', [''a'', ''b''], 1, 0), False)])" by code_simp
  from rejected_input_syntax_error [OF wf ab_not_in_language] pv
  have "earley_recognize ab_grammar True ''a'' ''<S>'' = Inl (SyntaxError [])"
    by (simp add: py_slice_from_def)
  with wf ab_not_in_language show ?thesis by simp
qed

end
